theory Spec2Isabelle
  imports Main "HOL-Library.AList" "HOL-Library.Multiset"
begin

text \<open>
  EchoMeet is a video meeting application: a socket.io server that keeps the rooms and
  relays signalling and chat, and a browser service that negotiates one WebRTC connection per
  peer. Both are embedded here as functions on explicit states. An event handler is one
  function from the state before the event to the state after it, with what it emits; an
  asynchronous handler is taken from its first line to its return, without other handlers
  running at its \<^verbatim>\<open>await\<close>s.
\<close>

section \<open>EchoMeet: the signalling server\<close>

text \<open>
  The server keeps two JavaScript \<^verbatim>\<open>Map\<close>s: \<^verbatim>\<open>rooms\<close> (room id to a \<^verbatim>\<open>Map\<close> from user id to
  \<^verbatim>\<open>{socketId, nickname}\<close>) and \<^verbatim>\<open>userSocketMap\<close> (user id to socket id). A \<^verbatim>\<open>Map\<close> iterates in
  insertion order, so each is an association list whose keys are distinct:
  \<^verbatim>\<open>set\<close> on a present key overwrites the value where it stands and on an absent key appends,
  \<^verbatim>\<open>delete\<close> drops the entry, \<^verbatim>\<open>get\<close> is the lookup.
\<close>

type_synonym UserId = string
type_synonym SocketId = string
type_synonym RoomId = string

abbreviation map_set :: "'k \<Rightarrow> 'v \<Rightarrow> ('k \<times> 'v) list \<Rightarrow> ('k \<times> 'v) list" where
  "map_set \<equiv> AList.update"

abbreviation map_delete :: "'k \<Rightarrow> ('k \<times> 'v) list \<Rightarrow> ('k \<times> 'v) list" where
  "map_delete \<equiv> AList.delete"

abbreviation map_get :: "('k \<times> 'v) list \<Rightarrow> 'k \<Rightarrow> 'v option" where
  "map_get \<equiv> map_of"

definition map_has :: "('k \<times> 'v) list \<Rightarrow> 'k \<Rightarrow> bool" where
  "map_has m k = (map_of m k \<noteq> None)"

record member =
  socketId :: SocketId
  nickname :: string

type_synonym room = "(UserId \<times> member) list"

text \<open>
  \<open>groups\<close> is socket.io's own bookkeeping of which sockets listen to which room name. The
  handlers change it with \<^verbatim>\<open>socket.join\<close> and \<^verbatim>\<open>socket.leave\<close>; socket.io itself puts a socket
  that connects into the room named by the socket's id, and takes a socket that disconnects
  out of every room before the \<^verbatim>\<open>disconnect\<close> handler runs.
\<close>

record registry =
  rooms :: "(RoomId \<times> room) list"
  userSocketMap :: "(UserId \<times> SocketId) list"
  groups :: "RoomId \<Rightarrow> SocketId set"

definition empty_registry :: registry where
  "empty_registry = \<lparr>rooms = [], userSocketMap = [], groups = (\<lambda>_. {})\<rparr>"

text \<open>What a client sends inside a \<^verbatim>\<open>signal\<close> event; the server never looks into it.\<close>

datatype sdp_type = Offer | Answer | Pranswer | Rollback

datatype signal = Description sdp_type string | Candidate string

datatype payload =
    ExistingParticipants "(UserId \<times> SocketId \<times> string) list"
  | UserJoined UserId SocketId string
  | UserRejoined UserId SocketId string
  | UserLeft UserId
  | ParticipantCount nat
  | ReceiveMessage string string string string int
  | Signal UserId signal

text \<open>
  \<^verbatim>\<open>socket.emit\<close> answers the calling socket, \<^verbatim>\<open>socket.to(r).emit\<close> reaches the group \<open>r\<close>
  without the calling socket, \<^verbatim>\<open>io.to(r).emit\<close> reaches the whole group \<open>r\<close>.
\<close>

datatype target = ToSender SocketId | RoomExcept RoomId SocketId | ToRoom RoomId

datatype warning = UnknownOrigin UserId | TargetNotFound UserId

datatype out = Emit target payload | Warn warning

fun reaches :: "(RoomId \<Rightarrow> SocketId set) \<Rightarrow> target \<Rightarrow> SocketId \<Rightarrow> bool" where
  "reaches g (ToSender s) t = (t = s)"
| "reaches g (RoomExcept r s) t = (t \<in> g r \<and> t \<noteq> s)"
| "reaches g (ToRoom r) t = (t \<in> g r)"

text \<open>The payloads one socket receives from a handler's output, in order.\<close>

fun inbox :: "(RoomId \<Rightarrow> SocketId set) \<Rightarrow> out list \<Rightarrow> SocketId \<Rightarrow> payload list" where
  "inbox g [] t = []"
| "inbox g (Emit tg p # os) t = (if reaches g tg t then p # inbox g os t else inbox g os t)"
| "inbox g (Warn w # os) t = inbox g os t"

fun emitted :: "out list \<Rightarrow> (target \<times> payload) list" where
  "emitted [] = []"
| "emitted (Emit tg p # os) = (tg, p) # emitted os"
| "emitted (Warn w # os) = emitted os"

definition room_of :: "(RoomId \<times> room) list \<Rightarrow> RoomId \<Rightarrow> room" where
  "room_of rs roomId = (case map_get rs roomId of Some ps \<Rightarrow> ps | None \<Rightarrow> [])"

definition participants_of :: "room \<Rightarrow> (UserId \<times> SocketId \<times> string) list" where
  "participants_of ps = map (\<lambda>(userId, d). (userId, socketId d, nickname d)) ps"

subsection \<open>connection\<close>

text \<open>
  Line 88: the handler logs and registers the handlers below. When it runs socket.io has
  put the socket into the room named by its own id, which is how \<^verbatim>\<open>io.to(socketId)\<close> reaches
  one socket.
\<close>

definition connection_handler :: "SocketId \<Rightarrow> registry \<Rightarrow> registry \<times> out list" where
  "connection_handler s st = (st\<lparr>groups := (groups st)(s := insert s (groups st s))\<rparr>, [])"

subsection \<open>join-room\<close>

text \<open>
  The loop of lines 102 to 113 looks for the key \<open>userId\<close> among the room's entries and, when
  it is there, deletes it from that room's \<^verbatim>\<open>Map\<close> (which stays where it is in \<^verbatim>\<open>rooms\<close>) and
  sets \<^verbatim>\<open>isRejoin\<close>. Line 126 then sets the key again: on a \<^verbatim>\<open>Map\<close> that no longer holds it.
  By line 126 the room exists, so \<open>room_of\<close> never takes its \<open>None\<close> branch there.
\<close>

definition join_room :: "SocketId \<Rightarrow> RoomId \<Rightarrow> UserId \<Rightarrow> string \<Rightarrow> registry \<Rightarrow> registry \<times> out list" where
  "join_room s roomId userId nick st =
    (let isRejoin = (case map_get (rooms st) roomId of
                       None \<Rightarrow> False
                     | Some existingParticipants \<Rightarrow> map_has existingParticipants userId);
         rooms1 = (case map_get (rooms st) roomId of
                     None \<Rightarrow> rooms st
                   | Some existingParticipants \<Rightarrow>
                       if map_has existingParticipants userId
                       then map_set roomId (map_delete userId existingParticipants) (rooms st)
                       else rooms st);
         groups1 = (groups st)(roomId := insert s (groups st roomId));
         index1 = map_set userId s (userSocketMap st);
         rooms2 = (if \<not> map_has rooms1 roomId then map_set roomId [] rooms1 else rooms1);
         rooms3 = map_set roomId
                    (map_set userId \<lparr>socketId = s, nickname = nick\<rparr> (room_of rooms2 roomId)) rooms2;
         participants = participants_of (room_of rooms3 roomId)
     in (\<lparr>rooms = rooms3, userSocketMap = index1, groups = groups1\<rparr>,
         [Emit (ToSender s) (ExistingParticipants participants),
          Emit (RoomExcept roomId s)
            (if isRejoin then UserRejoined userId s nick else UserJoined userId s nick),
          Emit (ToRoom roomId) (ParticipantCount (length (room_of rooms3 roomId)))]))"

subsection \<open>leave-room and disconnect\<close>

text \<open>
  Line 181 and line 265: collect the entries of \<^verbatim>\<open>userSocketMap\<close> whose value is this socket's
  id, then delete each of their keys.
\<close>

definition remove_socket :: "SocketId \<Rightarrow> (UserId \<times> SocketId) list \<Rightarrow> (UserId \<times> SocketId) list" where
  "remove_socket s idx =
     fold (\<lambda>(uid, sid). map_delete uid) (filter (\<lambda>(uid, sid). sid = s) idx) idx"

definition leave_room :: "SocketId \<Rightarrow> RoomId \<Rightarrow> UserId \<Rightarrow> registry \<Rightarrow> registry \<times> out list" where
  "leave_room s roomId userId st =
    (let (rooms1, evs) =
           (case map_get (rooms st) roomId of
              None \<Rightarrow> (rooms st, [])
            | Some ps \<Rightarrow>
                (let ps' = map_delete userId ps in
                 if length ps' = 0 then (map_delete roomId (rooms st), [])
                 else (map_set roomId ps' (rooms st),
                       [Emit (ToRoom roomId) (ParticipantCount (length ps'))])))
     in (\<lparr>rooms = rooms1,
          userSocketMap = remove_socket s (userSocketMap st),
          groups = (groups st)(roomId := groups st roomId - {s})\<rparr>,
         evs @ [Emit (RoomExcept roomId s) (UserLeft userId)]))"

text \<open>
  The inner \<^verbatim>\<open>forEach\<close> of the disconnect handler, over one room. \<open>todo\<close> are the entries still
  to visit, \<open>cur\<close> is the room's \<^verbatim>\<open>Map\<close> as it stands, \<open>gone\<close> records that
  \<^verbatim>\<open>rooms.delete(roomId)\<close> has run. Only the entry being visited is ever deleted, so the
  entries to visit are the ones the room had when the sweep began.
\<close>

fun sweep_participants ::
  "SocketId \<Rightarrow> RoomId \<Rightarrow> room \<Rightarrow> room \<times> bool \<times> out list \<Rightarrow> room \<times> bool \<times> out list" where
  "sweep_participants s roomId [] acc = acc"
| "sweep_participants s roomId ((userId, d) # todo) (cur, gone, evs) =
     (if socketId d = s then
        (let cur' = map_delete userId cur;
             left = Emit (RoomExcept roomId s) (UserLeft userId)
         in if length cur' = 0
            then sweep_participants s roomId todo (cur', True, evs @ [left])
            else sweep_participants s roomId todo
                   (cur', gone, evs @ [left, Emit (ToRoom roomId) (ParticipantCount (length cur'))]))
      else sweep_participants s roomId todo (cur, gone, evs))"

text \<open>The outer \<^verbatim>\<open>forEach\<close>: a room whose \<^verbatim>\<open>Map\<close> was emptied by the sweep leaves \<^verbatim>\<open>rooms\<close>.\<close>

fun sweep_rooms :: "SocketId \<Rightarrow> (RoomId \<times> room) list \<Rightarrow> (RoomId \<times> room) list \<times> out list" where
  "sweep_rooms s [] = ([], [])"
| "sweep_rooms s ((roomId, ps) # rest) =
     (let (ps', gone, evs) = sweep_participants s roomId ps (ps, False, []);
          (rest', evs') = sweep_rooms s rest
      in (if gone then rest' else (roomId, ps') # rest', evs @ evs'))"

text \<open>
  The disconnect handler. By the time it runs socket.io has taken the socket out of every
  room, its own included; the handler itself changes \<^verbatim>\<open>rooms\<close> and \<^verbatim>\<open>userSocketMap\<close>.
\<close>

definition disconnect :: "SocketId \<Rightarrow> registry \<Rightarrow> registry \<times> out list" where
  "disconnect s st =
     (let (rooms1, evs) = sweep_rooms s (rooms st)
      in (st\<lparr>rooms := rooms1, userSocketMap := remove_socket s (userSocketMap st),
             groups := (\<lambda>r. groups st r - {s})\<rparr>, evs))"

subsection \<open>chat-message and signal\<close>



text \<open>Lines 216 to 222: does any room hold the key \<open>from\<close>?\<close>

definition isValidUser :: "(RoomId \<times> room) list \<Rightarrow> UserId \<Rightarrow> bool" where
  "isValidUser rs fromUserId = list_ex (\<lambda>(roomId, participants). map_has participants fromUserId) rs"

text \<open>
  The \<^verbatim>\<open>signal\<close> field of the event is \<open>None\<close> when the client sent \<^verbatim>\<open>null\<close> or left it out. The
  log of line 204 reads \<^verbatim>\<open>signal.type\<close> before anything else, which throws a \<^verbatim>\<open>TypeError\<close> on
  \<^verbatim>\<open>null\<close> and \<^verbatim>\<open>undefined\<close>: the handler then ends there, and nothing is looked up or emitted.
  \<^verbatim>\<open>if (targetSocketId)\<close> tests the looked-up value for truthiness: \<^verbatim>\<open>undefined\<close> (no entry)
  and the empty string both fail it.
\<close>

datatype error = TypeError

definition signal_handler ::
  "UserId \<Rightarrow> UserId \<Rightarrow> signal option \<Rightarrow> registry \<Rightarrow> error + registry \<times> out list" where
  "signal_handler to from signal st =
     (case signal of
        None \<Rightarrow> Inl TypeError
      | Some sig \<Rightarrow>
          (case map_get (userSocketMap st) to of
             None \<Rightarrow> Inr (st, [Warn (TargetNotFound to)])
           | Some targetSocketId \<Rightarrow>
               if targetSocketId \<noteq> []
               then Inr (st, (if \<not> isValidUser (rooms st) from then [Warn (UnknownOrigin from)] else [])
                             @ [Emit (ToRoom targetSocketId) (Signal from sig)])
               else Inr (st, [Warn (TargetNotFound to)])))"

subsection \<open>Runs of the registry\<close>

datatype op =
    Join SocketId RoomId UserId string
  | Leave SocketId RoomId UserId
  | Disconnect SocketId
  | Connect SocketId

fun step :: "op \<Rightarrow> registry \<Rightarrow> registry" where
  "step (Connect s) st = fst (connection_handler s st)"
| "step (Join s roomId userId nick) st = fst (join_room s roomId userId nick st)"
| "step (Leave s roomId userId) st = fst (leave_room s roomId userId st)"
| "step (Disconnect s) st = fst (disconnect s st)"

definition run :: "op list \<Rightarrow> registry \<Rightarrow> registry" where
  "run ops st = fold step ops st"

subsection \<open>Predicates and derived operations used in the statements\<close>

definition no_empty_rooms :: "registry \<Rightarrow> bool" where
  "no_empty_rooms st = list_all (\<lambda>(roomId, ps). ps \<noteq> []) (rooms st)"

definition unique_users :: "registry \<Rightarrow> bool" where
  "unique_users st = list_all (\<lambda>(roomId, ps). distinct (map fst ps)) (rooms st)"

text \<open>
  The index agrees with the rooms: every member's user id is indexed to the socket stored in
  that member's entry, and every indexed user id is a member of some room.
\<close>

definition index_consistent :: "registry \<Rightarrow> bool" where
  "index_consistent st =
     (list_all (\<lambda>(roomId, ps).
         list_all (\<lambda>(userId, d). map_get (userSocketMap st) userId = Some (socketId d)) ps)
       (rooms st)
      \<and> list_all (\<lambda>(userId, sid). list_ex (\<lambda>(roomId, ps). map_has ps userId) (rooms st))
          (userSocketMap st))"

fun op_socket :: "op \<Rightarrow> SocketId" where
  "op_socket (Join s roomId userId nick) = s"
| "op_socket (Leave s roomId userId) = s"
| "op_socket (Disconnect s) = s"
| "op_socket (Connect s) = s"

text \<open>The (room, user) pairs whose member entry stores socket \<open>s\<close>, in the order of the sweep.\<close>

definition pinned_users :: "SocketId \<Rightarrow> room \<Rightarrow> UserId list" where
  "pinned_users s ps = map fst (filter (\<lambda>(userId, d). socketId d = s) ps)"

definition pinned :: "SocketId \<Rightarrow> (RoomId \<times> room) list \<Rightarrow> (RoomId \<times> UserId) list" where
  "pinned s rs = concat (map (\<lambda>(roomId, ps). map (Pair roomId) (pinned_users s ps)) rs)"

definition leave_all :: "SocketId \<Rightarrow> (RoomId \<times> UserId) list \<Rightarrow> registry \<Rightarrow> registry" where
  "leave_all s pairs st =
     fold (\<lambda>(roomId, userId) st'. fst (leave_room s roomId userId st')) pairs st"

text \<open>What \<open>leave_room\<close> does to \<^verbatim>\<open>rooms\<close> alone.\<close>

definition leave_rooms :: "RoomId \<Rightarrow> UserId \<Rightarrow> (RoomId \<times> room) list \<Rightarrow> (RoomId \<times> room) list" where
  "leave_rooms roomId userId rs =
     (case map_get rs roomId of
        None \<Rightarrow> rs
      | Some ps \<Rightarrow> if map_delete userId ps = [] then map_delete roomId rs
                   else map_set roomId (map_delete userId ps) rs)"

text \<open>
  The socket stored for a user in a room, if any; and a discipline on runs under which the
  index stays consistent: a user id joins a room only while its entries in all other rooms
  are stored under the joining socket, and a socket sends a leave only when it holds no
  (room, user) pair but the one it leaves and that pair's entry, if there is one, is stored
  under it. A disconnect and a connection are always allowed. \<open>agrees\<close> is \<open>index_consistent\<close>
  in terms of lookups.
\<close>

definition member_socket :: "(RoomId \<times> room) list \<Rightarrow> RoomId \<Rightarrow> UserId \<Rightarrow> SocketId option" where
  "member_socket rs roomId userId =
     (case map_get rs roomId of None \<Rightarrow> None | Some ps \<Rightarrow> map_option socketId (map_get ps userId))"

fun step_allowed :: "op \<Rightarrow> registry \<Rightarrow> bool" where
  "step_allowed (Join s roomId userId nick) st =
     list_all (\<lambda>(r, ps). r = roomId \<or> (case map_get ps userId of None \<Rightarrow> True | Some d \<Rightarrow> socketId d = s))
       (rooms st)"
| "step_allowed (Leave s roomId userId) st =
     (list_all (\<lambda>p. p = (roomId, userId)) (pinned s (rooms st))
      \<and> (case member_socket (rooms st) roomId userId of None \<Rightarrow> True | Some s' \<Rightarrow> s' = s))"
| "step_allowed (Disconnect s) st = True"
| "step_allowed (Connect s) st = True"

fun valid_run :: "registry \<Rightarrow> op list \<Rightarrow> bool" where
  "valid_run st [] = True"
| "valid_run st (x # xs) = (step_allowed x st \<and> valid_run (step x st) xs)"

definition agrees :: "(RoomId \<times> room) list \<Rightarrow> (UserId \<times> SocketId) list \<Rightarrow> bool" where
  "agrees rs idx =
     ((\<forall>r u s. member_socket rs r u = Some s \<longrightarrow> map_get idx u = Some s)
      \<and> (\<forall>u s. map_get idx u = Some s \<longrightarrow> (\<exists>r. member_socket rs r u = Some s)))"

text \<open>
  A socket is connected when socket.io has given it an id, which is never the empty string,
  and it is in the room named by that id. \<open>joins_connected\<close> holds of a run in which every
  \<^verbatim>\<open>join-room\<close> arrives over a socket that is connected at that moment.
\<close>

definition connected :: "registry \<Rightarrow> SocketId \<Rightarrow> bool" where
  "connected st s = (s \<noteq> [] \<and> s \<in> groups st s)"

fun join_connected :: "op \<Rightarrow> registry \<Rightarrow> bool" where
  "join_connected (Join s roomId userId nick) st = connected st s"
| "join_connected (Leave s roomId userId) st = True"
| "join_connected (Disconnect s) st = True"
| "join_connected (Connect s) st = True"

fun joins_connected :: "registry \<Rightarrow> op list \<Rightarrow> bool" where
  "joins_connected st [] = True"
| "joins_connected st (x # xs) = (join_connected x st \<and> joins_connected (step x st) xs)"

text \<open>Every socket the index names is connected.\<close>

definition index_connected :: "registry \<Rightarrow> bool" where
  "index_connected st = (\<forall>u sid. (u, sid) \<in> set (userSocketMap st) \<longrightarrow> connected st sid)"

text \<open>The shape every reachable registry has: rooms are non-empty and all keys are distinct.\<close>

definition room_ok :: "RoomId \<times> room \<Rightarrow> bool" where
  "room_ok = (\<lambda>(roomId, ps). ps \<noteq> [] \<and> distinct (map fst ps))"

definition registry_ok :: "registry \<Rightarrow> bool" where
  "registry_ok st = (list_all room_ok (rooms st) \<and> distinct (map fst (rooms st))
                     \<and> distinct (map fst (userSocketMap st)))"

section \<open>EchoMeet: the WebRTC client service\<close>

subsection \<open>Strings\<close>

text \<open>\<^verbatim>\<open>a < b\<close> on JavaScript strings compares code units from the left.\<close>

fun string_less :: "string \<Rightarrow> string \<Rightarrow> bool" where
  "string_less [] [] = False"
| "string_less [] (y # ys) = True"
| "string_less (x # xs) [] = False"
| "string_less (x # xs) (y # ys) =
     ((of_char x :: nat) < of_char y \<or> (x = y \<and> string_less xs ys))"

definition to_lower :: "char \<Rightarrow> char" where
  "to_lower ch = (let n = (of_char ch :: nat) in if 65 \<le> n \<and> n \<le> 90 then char_of (n + 32) else ch)"

definition toLowerCase :: "string \<Rightarrow> string" where
  "toLowerCase l = map to_lower l"

fun starts_with :: "string \<Rightarrow> string \<Rightarrow> bool" where
  "starts_with h [] = True"
| "starts_with [] (n # ns) = False"
| "starts_with (x # h) (n # ns) = (x = n \<and> starts_with h ns)"

fun str_includes :: "string \<Rightarrow> string \<Rightarrow> bool" where
  "str_includes [] n = starts_with [] n"
| "str_includes (x # h) n = (starts_with (x # h) n \<or> str_includes h n)"

subsection \<open>Tracks and the track router\<close>

datatype track_kind = Audio | Video

record track =
  track_id :: string
  kind :: track_kind
  label :: string
  displaySurface :: "string option"
  width :: "nat option"
  height :: "nat option"
  enabled :: bool

text \<open>
  The test on a label that the source writes out four times (lines 632 to 636, 659 to 663,
  680 to 684 and their copies): the label is truthy and, in lower case, contains one of the
  four words.
\<close>

definition label_is_screen :: "string \<Rightarrow> bool" where
  "label_is_screen l =
     (l \<noteq> [] \<and>
      (str_includes (toLowerCase l) ''screen'' \<or> str_includes (toLowerCase l) ''window'' \<or>
       str_includes (toLowerCase l) ''tab'' \<or> str_includes (toLowerCase l) ''display''))"

text \<open>Lines 631 to 638; \<^verbatim>\<open>(x || 0)\<close> reads a missing setting as 0.\<close>

definition isScreen :: "track \<Rightarrow> bool" where
  "isScreen t =
     (label_is_screen (label t)
      \<or> (case displaySurface t of None \<Rightarrow> False | Some d \<Rightarrow> d \<noteq> [])
      \<or> (kind t = Video
          \<and> (case width t of None \<Rightarrow> 0 | Some w \<Rightarrow> w) > 1000
          \<and> (case height t of None \<Rightarrow> 0 | Some h \<Rightarrow> h) > 700))"

text \<open>
  A \<^verbatim>\<open>MediaStream\<close> is its tracks in the order they were added; a track is itself by its id.
  \<^verbatim>\<open>addTrack\<close> does nothing when the track is already in the stream.
\<close>

definition addTrack :: "track \<Rightarrow> track list \<Rightarrow> track list" where
  "addTrack t ts = (if track_id t \<in> track_id ` set ts then ts else ts @ [t])"

definition removeTrack :: "track \<Rightarrow> track list \<Rightarrow> track list" where
  "removeTrack t ts = filter (\<lambda>x. track_id x \<noteq> track_id t) ts"

definition getVideoTracks :: "track list \<Rightarrow> track list" where
  "getVideoTracks ts = filter (\<lambda>t. kind t = Video) ts"

text \<open>
  Lines 649 to 696 and, word for word, lines 710 to 754: what the handler does to the remote
  stream with the incoming track, in the branch with and in the branch without
  \<^verbatim>\<open>event.streams\<close>.
\<close>

definition route_track :: "track \<Rightarrow> track list \<Rightarrow> track list" where
  "route_track event_track remoteStream =
     (if isScreen event_track \<and> kind event_track = Video then
        (let existingScreenTracks =
               filter (\<lambda>t. label_is_screen (label t)) (getVideoTracks remoteStream)
         in addTrack event_track (fold removeTrack existingScreenTracks remoteStream))
      else
        (let existingTrack =
               find (\<lambda>t. kind t = kind event_track \<and> \<not> label_is_screen (label t)) remoteStream
         in addTrack event_track
              (case existingTrack of None \<Rightarrow> remoteStream | Some t \<Rightarrow> removeTrack t remoteStream)))"

text \<open>
  The \<^verbatim>\<open>ontrack\<close> handler: the track is enabled (line 627), classified, and routed; the
  second component says whether the screen-share toast is shown.
\<close>

definition ontrack :: "track \<Rightarrow> nat \<Rightarrow> track list \<Rightarrow> track list \<times> bool" where
  "ontrack event_track event_streams remoteStream =
     (let tr = event_track\<lparr>enabled := True\<rparr> in
      if event_streams > 0 then (route_track tr remoteStream, isScreen tr)
      else (route_track tr remoteStream, isScreen tr))"

subsection \<open>The browser's \<^verbatim>\<open>RTCPeerConnection\<close>, as far as the service observes it\<close>

datatype signaling_state = Stable | HaveLocalOffer | HaveRemoteOffer | Closed

datatype rtc_call =
    CreateOffer
  | CreateAnswer
  | SetLocalDescription sdp_type
  | SetRemoteDescription sdp_type
  | AddIceCandidate string
  | Close

text \<open>
  \<open>calls\<close> lists every call the service makes on the connection, each with the signalling
  state the connection was in when the call was made; \<open>iceCandidates\<close> are the remote
  candidates the connection has taken in.
\<close>

record rtc_connection =
  signalingState :: signaling_state
  pendingLocalDescription :: "string option"
  pendingRemoteDescription :: "string option"
  currentLocalDescription :: "string option"
  currentRemoteDescription :: "string option"
  iceCandidates :: "string list"
  senders :: "track list"
  calls :: "(rtc_call \<times> signaling_state) list"

definition new_connection :: rtc_connection where
  "new_connection =
     \<lparr>signalingState = Stable, pendingLocalDescription = None, pendingRemoteDescription = None,
      currentLocalDescription = None, currentRemoteDescription = None, iceCandidates = [],
      senders = [], calls = []\<rparr>"

definition remoteDescription :: "rtc_connection \<Rightarrow> string option" where
  "remoteDescription conn =
     (case pendingRemoteDescription conn of Some d \<Rightarrow> Some d | None \<Rightarrow> currentRemoteDescription conn)"

definition log_call :: "rtc_call \<Rightarrow> rtc_connection \<Rightarrow> rtc_connection" where
  "log_call k conn = conn\<lparr>calls := calls conn @ [(k, signalingState conn)]\<rparr>"

text \<open>
  What the page cannot decide is a parameter: the clock, the description text the browser
  generates, which remote candidates the browser accepts, and which remote description
  texts it can parse.
\<close>

record env =
  now :: nat
  sdp :: string
  accepts :: "string \<Rightarrow> bool"
  parses :: "string \<Rightarrow> bool"

text \<open>
  Each operation returns whether its promise resolves (\<open>True\<close>) or rejects, and the
  connection afterwards. The transitions are those of the W3C signalling state machine
  between the four states the service meets; \<^verbatim>\<open>setRemoteDescription\<close> rejects an offer or an
  answer whose text the browser cannot parse, whatever the state.
\<close>

definition createOffer :: "rtc_connection \<Rightarrow> bool \<times> rtc_connection" where
  "createOffer conn = (signalingState conn \<noteq> Closed, log_call CreateOffer conn)"

definition createAnswer :: "rtc_connection \<Rightarrow> bool \<times> rtc_connection" where
  "createAnswer conn = (signalingState conn = HaveRemoteOffer, log_call CreateAnswer conn)"

fun setLocalDescription :: "sdp_type \<Rightarrow> string \<Rightarrow> rtc_connection \<Rightarrow> bool \<times> rtc_connection" where
  "setLocalDescription Offer description conn =
     (let conn1 = log_call (SetLocalDescription Offer) conn in
      if signalingState conn = Stable \<or> signalingState conn = HaveLocalOffer
      then (True, conn1\<lparr>signalingState := HaveLocalOffer, pendingLocalDescription := Some description\<rparr>)
      else (False, conn1))"
| "setLocalDescription Answer description conn =
     (let conn1 = log_call (SetLocalDescription Answer) conn in
      if signalingState conn = HaveRemoteOffer
      then (True, conn1\<lparr>signalingState := Stable,
                         pendingLocalDescription := None,
                         pendingRemoteDescription := None,
                         currentLocalDescription := Some description,
                         currentRemoteDescription := pendingRemoteDescription conn\<rparr>)
      else (False, conn1))"
| "setLocalDescription Rollback description conn =
     (let conn1 = log_call (SetLocalDescription Rollback) conn in
      if signalingState conn = HaveLocalOffer \<or> signalingState conn = HaveRemoteOffer
      then (True, conn1\<lparr>signalingState := Stable,
                         pendingLocalDescription := None, pendingRemoteDescription := None\<rparr>)
      else (False, conn1))"
| "setLocalDescription Pranswer description conn = (False, log_call (SetLocalDescription Pranswer) conn)"

fun setRemoteDescription ::
  "env \<Rightarrow> sdp_type \<Rightarrow> string \<Rightarrow> rtc_connection \<Rightarrow> bool \<times> rtc_connection" where
  "setRemoteDescription e Offer description conn =
     (let conn1 = log_call (SetRemoteDescription Offer) conn in
      if signalingState conn \<noteq> Closed \<and> parses e description
      then (True, conn1\<lparr>signalingState := HaveRemoteOffer,
                         pendingLocalDescription := None, pendingRemoteDescription := Some description\<rparr>)
      else (False, conn1))"
| "setRemoteDescription e Answer description conn =
     (let conn1 = log_call (SetRemoteDescription Answer) conn in
      if signalingState conn = HaveLocalOffer \<and> parses e description
      then (True, conn1\<lparr>signalingState := Stable,
                         pendingLocalDescription := None,
                         pendingRemoteDescription := None,
                         currentLocalDescription := pendingLocalDescription conn,
                         currentRemoteDescription := Some description\<rparr>)
      else (False, conn1))"
| "setRemoteDescription e Rollback description conn =
     (let conn1 = log_call (SetRemoteDescription Rollback) conn in
      if signalingState conn = HaveRemoteOffer
      then (True, conn1\<lparr>signalingState := Stable, pendingRemoteDescription := None\<rparr>)
      else (False, conn1))"
| "setRemoteDescription e Pranswer description conn = (False, log_call (SetRemoteDescription Pranswer) conn)"

definition addIceCandidate :: "env \<Rightarrow> string \<Rightarrow> rtc_connection \<Rightarrow> bool \<times> rtc_connection" where
  "addIceCandidate e cand conn =
     (let conn1 = log_call (AddIceCandidate cand) conn in
      if signalingState conn \<noteq> Closed \<and> remoteDescription conn \<noteq> None \<and> accepts e cand
      then (True, conn1\<lparr>iceCandidates := iceCandidates conn @ [cand]\<rparr>)
      else (False, conn1))"

subsection \<open>The service\<close>

record peer =
  connection :: rtc_connection
  stream :: "track list"

record client =
  myUserId :: UserId
  localStream :: "track list option"
  peerConnections :: "(UserId \<times> peer) list"
  nicknameMap :: "(UserId \<times> string) list"
  pendingConnections :: "UserId list"
  makingOffer :: "(UserId \<times> bool) list"
  ignoreOffer :: "(UserId \<times> bool) list"
  connectionCreationTime :: "(UserId \<times> nat) list"
  pendingIce :: "(UserId \<times> string list) list"
  lastTrackAddTime :: "(UserId \<times> nat) list"
  sent :: "(UserId \<times> signal) list"
  closed :: "UserId list"

definition MAX_PEER_CONNECTIONS :: nat where
  "MAX_PEER_CONNECTIONS = 10"

text \<open>\<^verbatim>\<open>Set.add\<close>: a \<^verbatim>\<open>Set\<close> keeps insertion order and holds a value once.\<close>

definition set_add :: "'a \<Rightarrow> 'a list \<Rightarrow> 'a list" where
  "set_add x xs = (if x \<in> set xs then xs else xs @ [x])"

text \<open>\<^verbatim>\<open>this.makingOffer.get(userId)\<close> used as a condition: a missing entry is falsy.\<close>

definition making :: "client \<Rightarrow> UserId \<Rightarrow> bool" where
  "making c userId = (map_get (makingOffer c) userId = Some True)"

definition sendSignal :: "UserId \<Rightarrow> signal \<Rightarrow> client \<Rightarrow> client" where
  "sendSignal to sig c = c\<lparr>sent := sent c @ [(to, sig)]\<rparr>"

text \<open>Lines 924 to 937. \<open>closed\<close> records the \<^verbatim>\<open>close()\<close> call on the removed connection.\<close>

definition removePeerConnection :: "UserId \<Rightarrow> client \<Rightarrow> client" where
  "removePeerConnection userId c =
     (case map_get (peerConnections c) userId of
        None \<Rightarrow> c
      | Some p \<Rightarrow>
          c\<lparr>closed := closed c @ [userId],
            peerConnections := map_delete userId (peerConnections c),
            connectionCreationTime := map_delete userId (connectionCreationTime c),
            makingOffer := map_delete userId (makingOffer c),
            ignoreOffer := map_delete userId (ignoreOffer c),
            pendingIce := map_delete userId (pendingIce c)\<rparr>)"

text \<open>
  Lines 1005 to 1017: the entries of \<^verbatim>\<open>connectionCreationTime\<close> sorted by time (the sort is
  stable), the first of them removed and put on the pending list.
\<close>

definition cleanupOldestConnection :: "client \<Rightarrow> client" where
  "cleanupOldestConnection c =
     (if length (peerConnections c) = 0 then c
      else (case sort_key snd (connectionCreationTime c) of
              [] \<Rightarrow> c
            | (oldestUserId, t) # rest \<Rightarrow>
                (let c1 = removePeerConnection oldestUserId c
                 in c1\<lparr>pendingConnections := set_add oldestUserId (pendingConnections c1)\<rparr>)))"

text \<open>
  Lines 549 to 612. \<open>None\<close> is the throw of line 559. With a connection already in the table
  nothing is created.
\<close>

definition createPeerConnection :: "env \<Rightarrow> UserId \<Rightarrow> client \<Rightarrow> client option" where
  "createPeerConnection e remoteUserId c =
     (case map_get (peerConnections c) remoteUserId of
        Some existingConnection \<Rightarrow> Some c
      | None \<Rightarrow>
          (case localStream c of
             None \<Rightarrow> None
           | Some tracks \<Rightarrow>
               (let c1 = (if length (peerConnections c) \<ge> MAX_PEER_CONNECTIONS
                          then cleanupOldestConnection c else c);
                    c2 = c1\<lparr>connectionCreationTime :=
                              map_set remoteUserId (now e) (connectionCreationTime c1)\<rparr>;
                    c3 = (if length tracks > 0
                          then c2\<lparr>lastTrackAddTime :=
                                    map_set remoteUserId (now e) (lastTrackAddTime c2)\<rparr>
                          else c2);
                    peerConnection = new_connection\<lparr>senders := tracks\<rparr>
                in Some (c3\<lparr>peerConnections :=
                              map_set remoteUserId \<lparr>connection = peerConnection, stream = []\<rparr>
                                (peerConnections c3)\<rparr>))))"

text \<open>Writing back what a call did to the connection object held in the table.\<close>

definition put_connection :: "UserId \<Rightarrow> rtc_connection \<Rightarrow> client \<Rightarrow> client" where
  "put_connection userId conn c =
     (case map_get (peerConnections c) userId of
        None \<Rightarrow> c
      | Some p \<Rightarrow> c\<lparr>peerConnections := map_set userId (p\<lparr>connection := conn\<rparr>) (peerConnections c)\<rparr>)"

text \<open>
  The \<^verbatim>\<open>for\<close> loop of lines 183 to 185 (and 210 to 212): the first candidate the browser
  rejects throws out of the loop.
\<close>

fun add_all :: "env \<Rightarrow> string list \<Rightarrow> rtc_connection \<Rightarrow> bool \<times> rtc_connection" where
  "add_all e [] conn = (True, conn)"
| "add_all e (cand # cands) conn =
     (let (ok, conn1) = addIceCandidate e cand conn
      in if ok then add_all e cands conn1 else (False, conn1))"

text \<open>
  \<^verbatim>\<open>pendingIce\<close> is a plain object (line 46), not a \<^verbatim>\<open>Map\<close>: the association list holds its own
  properties, and reading a key it does not own gives what \<^verbatim>\<open>Object.prototype\<close> has under that
  name. These are the names \<^verbatim>\<open>Object.prototype\<close> has, each with the \<^verbatim>\<open>length\<close> of its value:
  the arity of the function, and none for \<^verbatim>\<open>__proto__\<close>, whose value is \<^verbatim>\<open>Object.prototype\<close>
  itself. Every one of the values is truthy and none has a \<^verbatim>\<open>push\<close> or can be iterated.
\<close>

definition Object_prototype :: "(string \<times> nat option) list" where
  "Object_prototype =
     [(''constructor'', Some 1), (''__proto__'', None), (''hasOwnProperty'', Some 1),
      (''isPrototypeOf'', Some 1), (''propertyIsEnumerable'', Some 1), (''toString'', Some 0),
      (''toLocaleString'', Some 0), (''valueOf'', Some 0), (''__defineGetter__'', Some 2),
      (''__defineSetter__'', Some 2), (''__lookupGetter__'', Some 1), (''__lookupSetter__'', Some 1)]"

definition prototype_key :: "string \<Rightarrow> bool" where
  "prototype_key k = map_has Object_prototype k"

text \<open>
  Line 109, \<^verbatim>\<open>(this.pendingIce[userId] ||= []).push(signal)\<close>: an own queue is pushed to; an
  inherited value is truthy, so nothing is assigned, and its missing \<^verbatim>\<open>push\<close> throws a
  \<^verbatim>\<open>TypeError\<close> that the \<^verbatim>\<open>catch\<close> of line 222 logs; otherwise a new queue is created.
\<close>

definition queue_candidate :: "UserId \<Rightarrow> string \<Rightarrow> client \<Rightarrow> client" where
  "queue_candidate userId cand c =
     (case map_get (pendingIce c) userId of
        Some q \<Rightarrow> c\<lparr>pendingIce := map_set userId (q @ [cand]) (pendingIce c)\<rparr>
      | None \<Rightarrow>
          if prototype_key userId then c
          else c\<lparr>pendingIce := map_set userId [cand] (pendingIce c)\<rparr>)"

text \<open>
  Lines 181 to 187 (and 208 to 214). The \<^verbatim>\<open>delete\<close> of line 186 is reached only when the
  loop ends without a throw. For a key the object does not own, the test of line 181 reads
  the \<^verbatim>\<open>length\<close> of the inherited value, and when that is not 0 the \<^verbatim>\<open>for\<close> of line 183 throws
  on a value that cannot be iterated.
\<close>

definition drain_pendingIce :: "env \<Rightarrow> UserId \<Rightarrow> rtc_connection \<Rightarrow> client \<Rightarrow> bool \<times> client" where
  "drain_pendingIce e userId conn c =
     (case map_get (pendingIce c) userId of
        None \<Rightarrow>
          (case map_get Object_prototype userId of
             Some (Some n) \<Rightarrow> (n = 0, c)
           | Some None \<Rightarrow> (True, c)
           | None \<Rightarrow> (True, c))
      | Some cands \<Rightarrow>
          if length cands = 0 then (True, c)
          else (let (ok, conn1) = add_all e cands conn;
                    c1 = put_connection userId conn1 c
                in if ok then (True, c1\<lparr>pendingIce := map_delete userId (pendingIce c1)\<rparr>)
                   else (False, c1)))"

text \<open>
  Lines 130 to 146: the impolite side of a collision ignores the offer and, unless it is
  already making one, creates and sets an offer of its own.
\<close>

definition impolite_collision :: "env \<Rightarrow> UserId \<Rightarrow> peer \<Rightarrow> client \<Rightarrow> client" where
  "impolite_collision e userId existingPeer c =
     (if \<not> making c userId then
        (let c1 = c\<lparr>makingOffer := map_set userId True (makingOffer c)\<rparr>;
             (ok1, conn1) = createOffer (connection existingPeer);
             (ok2, conn2) = (if ok1 then setLocalDescription Offer (sdp e) conn1 else (False, conn1));
             c2 = put_connection userId conn2 c1;
             c3 = (if ok2 then sendSignal userId (Description Offer (sdp e)) c2 else c2)
         in c3\<lparr>makingOffer := map_set userId False (makingOffer c3)\<rparr>)
      else c)"

text \<open>
  Lines 177 to 193, from \<^verbatim>\<open>setRemoteDescription\<close> on; a rejected promise leaves through the
  \<^verbatim>\<open>catch\<close> of line 222 with what has been done so far.
\<close>

definition apply_offer :: "env \<Rightarrow> UserId \<Rightarrow> string \<Rightarrow> client \<Rightarrow> client" where
  "apply_offer e userId remote_sdp c =
     (case map_get (peerConnections c) userId of
        None \<Rightarrow> c
      | Some p \<Rightarrow>
          (let (ok1, conn1) = setRemoteDescription e Offer remote_sdp (connection p);
               c1 = put_connection userId conn1 c
           in if \<not> ok1 then c1
              else (let (ok2, c2) = drain_pendingIce e userId conn1 c1
                    in if \<not> ok2 then c2
                       else (case map_get (peerConnections c2) userId of
                               None \<Rightarrow> c2
                             | Some p2 \<Rightarrow>
                                 (let (ok3, conn3) = createAnswer (connection p2);
                                      (ok4, conn4) = (if ok3 then setLocalDescription Answer (sdp e) conn3
                                                      else (False, conn3));
                                      c4 = put_connection userId conn4 c2
                                  in if ok4 then sendSignal userId (Description Answer (sdp e)) c4
                                     else c4)))))"

text \<open>Lines 194 to 220.\<close>

definition apply_answer :: "env \<Rightarrow> UserId \<Rightarrow> string \<Rightarrow> client \<Rightarrow> client" where
  "apply_answer e userId remote_sdp c =
     (case map_get (peerConnections c) userId of
        None \<Rightarrow> c
      | Some existingPeer \<Rightarrow>
          if signalingState (connection existingPeer) = HaveLocalOffer then
            (let (ok1, conn1) = setRemoteDescription e Answer remote_sdp (connection existingPeer);
                 c1 = put_connection userId conn1 c
             in if \<not> ok1 then c1
                else (let (ok2, c2) = drain_pendingIce e userId conn1 c1
                      in if \<not> ok2 then c2
                         else c2\<lparr>makingOffer := map_set userId False (makingOffer c2)\<rparr>))
          else c)"

text \<open>
  The \<^verbatim>\<open>signal\<close> handler, lines 78 to 229, run from its first line to its return. The
  check of line 89 comes before anything else is looked at.
\<close>

definition on_signal :: "env \<Rightarrow> UserId \<Rightarrow> signal \<Rightarrow> client \<Rightarrow> client" where
  "on_signal e from sig c =
     (let userId = from in
      case localStream c of
        None \<Rightarrow> c\<lparr>pendingConnections := set_add userId (pendingConnections c)\<rparr>
      | Some tracks \<Rightarrow>
          (let existingPeer = map_get (peerConnections c) userId;
               isPolite = string_less (myUserId c) userId
           in case sig of
                Candidate cand \<Rightarrow>
                  (case existingPeer of
                     None \<Rightarrow> queue_candidate userId cand c
                   | Some p \<Rightarrow>
                       if remoteDescription (connection p) = None
                       then queue_candidate userId cand c
                       else put_connection userId (snd (addIceCandidate e cand (connection p))) c)
              | Description Offer remote_sdp \<Rightarrow>
                  (case existingPeer of
                     None \<Rightarrow>
                       (case createPeerConnection e userId c of
                          None \<Rightarrow> c
                        | Some c1 \<Rightarrow> apply_offer e userId remote_sdp c1)
                   | Some p \<Rightarrow>
                       if (making c userId \<or> signalingState (connection p) \<noteq> Stable) \<and> \<not> isPolite
                       then impolite_collision e userId p c
                       else if signalingState (connection p) \<noteq> Stable \<and> isPolite
                       then (let (ok, conn1) = setLocalDescription Rollback [] (connection p);
                                 c1 = put_connection userId conn1 c
                             in if ok then apply_offer e userId remote_sdp c1 else c1)
                       else apply_offer e userId remote_sdp c)
              | Description Answer remote_sdp \<Rightarrow> apply_answer e userId remote_sdp c
              | Description Pranswer remote_sdp \<Rightarrow> c
              | Description Rollback remote_sdp \<Rightarrow> c))"

text \<open>
  Lines 484 to 542. \<open>None\<close> is the exception \<^verbatim>\<open>createPeerConnection\<close> throws and
  \<^verbatim>\<open>initiateCall\<close> throws on. Only the polite side goes on to make the offer; both state
  checks of the source are kept, although nothing runs between them here. Every way out of
  the \<^verbatim>\<open>try\<close> block, the early \<^verbatim>\<open>return\<close> of line 503 included, passes the \<^verbatim>\<open>finally\<close> of
  line 531, which clears the flag.
\<close>

definition initiateCall :: "env \<Rightarrow> UserId \<Rightarrow> client \<Rightarrow> client option" where
  "initiateCall e userId c =
     (case createPeerConnection e userId c of
        None \<Rightarrow> None
      | Some c0 \<Rightarrow>
          (case map_get (peerConnections c0) userId of
             None \<Rightarrow> Some c0
           | Some peerConnection \<Rightarrow>
               if string_less (myUserId c0) userId then
                 (if making c0 userId
                  then Some (c0\<lparr>makingOffer := map_set userId False (makingOffer c0)\<rparr>)
                  else
                    (let c1 = c0\<lparr>makingOffer := map_set userId True (makingOffer c0)\<rparr> in
                     if signalingState (connection peerConnection) \<noteq> Stable
                     then Some (c1\<lparr>makingOffer := map_set userId False (makingOffer c1)\<rparr>)
                     else
                       (let (ok1, conn1) = createOffer (connection peerConnection) in
                        if \<not> ok1
                        then Some ((put_connection userId conn1 c1)
                                     \<lparr>makingOffer := map_set userId False (makingOffer c1)\<rparr>)
                        else if signalingState conn1 \<noteq> Stable
                        then Some ((put_connection userId conn1 c1)
                                     \<lparr>makingOffer := map_set userId False (makingOffer c1)\<rparr>)
                        else
                          (let (ok2, conn2) = setLocalDescription Offer (sdp e) conn1;
                               c2 = put_connection userId conn2 c1;
                               c3 = (if ok2 then sendSignal userId (Description Offer (sdp e)) c2 else c2)
                           in Some (c3\<lparr>makingOffer := map_set userId False (makingOffer c3)\<rparr>)))))
               else Some c0))"

text \<open>
  The body of the debounce timer of \<^verbatim>\<open>onnegotiationneeded\<close>, lines 779 to 815. The timer
  holds the connection it was set up for. While that connection is the one in the table it
  is read from there; once the peer has been removed the connection is closed, which is not
  \<open>stable\<close>, so the body sets the flag and clears it again.
\<close>

definition negotiation_timer :: "env \<Rightarrow> UserId \<Rightarrow> client \<Rightarrow> client" where
  "negotiation_timer e remoteUserId c =
     (case map_get (peerConnections c) remoteUserId of
        None \<Rightarrow>
          if making c remoteUserId then c
          else c\<lparr>makingOffer := map_set remoteUserId False
                                   (map_set remoteUserId True (makingOffer c))\<rparr>
      | Some p \<Rightarrow>
          if making c remoteUserId then c
          else
            (let c1 = c\<lparr>makingOffer := map_set remoteUserId True (makingOffer c)\<rparr> in
             if signalingState (connection p) \<noteq> Stable
             then c1\<lparr>makingOffer := map_set remoteUserId False (makingOffer c1)\<rparr>
             else
               (let (ok1, conn1) = createOffer (connection p) in
                if \<not> ok1 \<or> signalingState conn1 \<noteq> Stable
                then (put_connection remoteUserId conn1 c1)
                       \<lparr>makingOffer := map_set remoteUserId False (makingOffer c1)\<rparr>
                else
                  (let (ok2, conn2) = setLocalDescription Offer (sdp e) conn1;
                       c2 = put_connection remoteUserId conn2 c1;
                       c3 = (if ok2 then sendSignal remoteUserId (Description Offer (sdp e)) c2 else c2)
                   in c3\<lparr>makingOffer := map_set remoteUserId False (makingOffer c3)\<rparr>))))"

text \<open>The service as its field initialisers leave it, and a page that has got its stream.\<close>

definition new_service :: "UserId \<Rightarrow> client" where
  "new_service me =
     \<lparr>myUserId = me, localStream = None, peerConnections = [], nicknameMap = [],
      pendingConnections = [], makingOffer = [], ignoreOffer = [], connectionCreationTime = [],
      pendingIce = [], lastTrackAddTime = [], sent = [], closed = []\<rparr>"

definition initial_client :: "UserId \<Rightarrow> track list \<Rightarrow> client" where
  "initial_client me tracks = (new_service me)\<lparr>localStream := Some tracks\<rparr>"

subsection \<open>Observations used in the statements\<close>

text \<open>The calls the service has made on the connection to a peer, and the queue kept for a peer.\<close>

definition calls_of :: "client \<Rightarrow> UserId \<Rightarrow> (rtc_call \<times> signaling_state) list" where
  "calls_of c userId =
     (case map_get (peerConnections c) userId of None \<Rightarrow> [] | Some p \<Rightarrow> calls (connection p))"

definition pending_of :: "client \<Rightarrow> UserId \<Rightarrow> string list" where
  "pending_of c userId = (case map_get (pendingIce c) userId of None \<Rightarrow> [] | Some q \<Rightarrow> q)"

text \<open>The states in which \<^verbatim>\<open>setLocalDescription\<close> was called with an offer.\<close>

definition offer_states :: "(rtc_call \<times> signaling_state) list \<Rightarrow> signaling_state list" where
  "offer_states cs = map snd (filter (\<lambda>(k, st). k = SetLocalDescription Offer) cs)"

text \<open>
  \<open>ice_ready\<close>: there is a connection for the peer and it has a remote description (the
  negation of the test of line 106). \<open>offer_applies\<close>: an inbound offer is not ignored, that is,
  there is no connection yet, or there is an open one and this side is polite or is neither
  making an offer nor away from \<open>stable\<close>. \<open>rollback_call\<close>: the rollback of line 170, which the
  polite side makes first when its connection is not \<open>stable\<close>.
\<close>

definition ice_ready :: "client \<Rightarrow> UserId \<Rightarrow> bool" where
  "ice_ready c userId =
     (case map_get (peerConnections c) userId of
        None \<Rightarrow> False
      | Some p \<Rightarrow> remoteDescription (connection p) \<noteq> None)"

definition state_of :: "client \<Rightarrow> UserId \<Rightarrow> signaling_state option" where
  "state_of c userId = map_option (signalingState \<circ> connection) (map_get (peerConnections c) userId)"

definition candidates_of :: "client \<Rightarrow> UserId \<Rightarrow> string list" where
  "candidates_of c userId =
     (case map_get (peerConnections c) userId of None \<Rightarrow> [] | Some p \<Rightarrow> iceCandidates (connection p))"

definition offer_applies :: "client \<Rightarrow> UserId \<Rightarrow> bool" where
  "offer_applies c userId =
     (case map_get (peerConnections c) userId of
        None \<Rightarrow> True
      | Some p \<Rightarrow>
          signalingState (connection p) \<noteq> Closed
          \<and> (string_less (myUserId c) userId
             \<or> (\<not> making c userId \<and> signalingState (connection p) = Stable)))"

text \<open>
  \<open>reoffers\<close>: the signal is an offer that meets the collision branch of lines 130 to 146 with
  the flag \<^verbatim>\<open>makingOffer\<close> down and a connection that is open: the service has a local stream
  and a connection to the peer, is the impolite side, is not making an offer, and the
  connection is neither \<open>stable\<close> nor closed.
\<close>

definition reoffers :: "client \<Rightarrow> UserId \<Rightarrow> signal \<Rightarrow> bool" where
  "reoffers c userId sig =
     (case sig of
        Description Offer remote_sdp \<Rightarrow>
          (case map_get (peerConnections c) userId of
             None \<Rightarrow> False
           | Some p \<Rightarrow>
               localStream c \<noteq> None
               \<and> \<not> string_less (myUserId c) userId
               \<and> \<not> making c userId
               \<and> signalingState (connection p) \<noteq> Stable
               \<and> signalingState (connection p) \<noteq> Closed)
      | _ \<Rightarrow> False)"

definition rollback_call :: "client \<Rightarrow> UserId \<Rightarrow> (rtc_call \<times> signaling_state) list" where
  "rollback_call c userId =
     (case map_get (peerConnections c) userId of
        None \<Rightarrow> []
      | Some p \<Rightarrow> if signalingState (connection p) \<noteq> Stable
                  then [(SetLocalDescription Rollback, signalingState (connection p))] else [])"

text \<open>Registries and runs for the examples, each from the empty registry.\<close>

definition two_members :: registry where
  "two_members = run [Join ''s1'' ''R'' ''u1'' ''A'', Join ''s2'' ''R'' ''u2'' ''B''] empty_registry"

definition two_connected :: "op list" where
  "two_connected =
     [Connect ''s1'', Join ''s1'' ''R'' ''u1'' ''A'', Connect ''s2'', Join ''s2'' ''R'' ''u2'' ''B'']"

text \<open>A socket that connects, leaves the room named by its own id, and then joins a room.\<close>

definition left_own_room :: "op list" where
  "left_own_room = [Connect ''s1'', Leave ''s1'' ''s1'' ''u1'', Join ''s1'' ''R'' ''u1'' ''A'']"

definition two_rooms :: registry where
  "two_rooms =
     run [Join ''s1'' ''R1'' ''u1'' ''A'', Join ''s2'' ''R1'' ''u2'' ''B'', Join ''s1'' ''R2'' ''u1'' ''A'']
       empty_registry"

definition rejoin_then_leave :: "op list" where
  "rejoin_then_leave =
     [Join ''s1'' ''R'' ''u1'' ''A'', Join ''s2'' ''R'' ''u2'' ''B'', Join ''s3'' ''R'' ''u1'' ''A'',
      Leave ''s2'' ''R'' ''u2'']"

text \<open>Concrete data for the examples.\<close>

definition example_env :: env where
  "example_env = \<lparr>now = 1000, sdp = ''v=0'', accepts = (\<lambda>cand. cand \<noteq> ''bad''),
                   parses = (\<lambda>d. d \<noteq> ''garbage'')\<rparr>"

definition example_camera :: track where
  "example_camera = \<lparr>track_id = ''cam-1'', kind = Video, label = ''cam-1'', displaySurface = None,
      width = Some 640, height = Some 480, enabled = True\<rparr>"

definition example_microphone :: track where
  "example_microphone = \<lparr>track_id = ''mic-1'', kind = Audio, label = ''mic-1'', displaySurface = None,
      width = None, height = None, enabled = True\<rparr>"

definition example_share_a :: track where
  "example_share_a = \<lparr>track_id = ''4f2a'', kind = Video, label = ''4f2a'', displaySurface = None,
      width = Some 1920, height = Some 1080, enabled = True\<rparr>"

definition example_share_b :: track where
  "example_share_b = \<lparr>track_id = ''9b1c'', kind = Video, label = ''9b1c'', displaySurface = None,
      width = Some 1920, height = Some 1080, enabled = True\<rparr>"

definition example_queued :: client where
  "example_queued =
     on_signal example_env ''u1'' (Candidate ''c2'')
       (on_signal example_env ''u1'' (Candidate ''c1'') (initial_client ''u2'' [example_camera]))"

text \<open>
  The impolite side \<open>u2\<close> after it has created the connection to \<open>u1\<close> and its negotiation timer
  has set and sent an offer.
\<close>

definition example_glare :: client where
  "example_glare =
     (case initiateCall example_env ''u1'' (initial_client ''u2'' [example_camera]) of
        None \<Rightarrow> initial_client ''u2'' [example_camera]
      | Some c \<Rightarrow> negotiation_timer example_env ''u1'' c)"

definition example_offering :: client where
  "example_offering =
     (case initiateCall example_env ''u2'' (initial_client ''u1'' [example_camera]) of
        None \<Rightarrow> initial_client ''u1'' [example_camera]
      | Some c \<Rightarrow> on_signal example_env ''u2'' (Candidate ''c1'') c)"

section \<open>Properties of the server\<close>

subsection \<open>Facts about the \<^verbatim>\<open>Map\<close> operations\<close>


lemma room_of_set: "room_of (map_set r ps rs) r = ps"
  by (simp add: room_of_def update_conv')

lemma map_has_set: "map_has (map_set k v al) k"
  by (simp add: map_has_def update_conv')



lemma map_get_in_dom: "map_get al k = Some v \<Longrightarrow> k \<in> fst ` set al"
  by (metis domI dom_map_of_conv_image_fst)

lemma map_delete_absent: "\<not> map_has al k \<Longrightarrow> map_delete k al = al"
  by (simp add: map_has_def map_of_eq_None_iff)

lemma set_map_set_subset: "set (map_set k v al) \<subseteq> insert (k, v) (set al)"
  by (induction al) auto

lemma fold_map_delete_Nil: "fold map_delete us ([] :: ('k \<times> 'v) list) = []"
  by (induction us) auto

lemma fold_delete_filter:
  "fold (\<lambda>(uid, sid). map_delete uid) xs al = filter (\<lambda>(k, v). k \<notin> fst ` set xs) al"
proof (induction xs arbitrary: al)
  case Nil
  show ?case by simp
next
  case (Cons x xs)
  obtain uid sid where x: "x = (uid, sid)" by (cases x)
  have "filter (\<lambda>(k, v). k \<notin> fst ` set xs) (map_delete uid al) =
        filter (\<lambda>(k, v). k \<notin> fst ` set (x # xs)) al"
    unfolding AList.delete_eq x by (induction al) auto
  then show ?case using Cons.IH [of "map_delete uid al"] by (simp add: x)
qed

subsection \<open>The index clean-up\<close>

lemma remove_socket_subset: "set (remove_socket s idx) \<subseteq> set idx"
  by (auto simp: remove_socket_def fold_delete_filter)

lemma remove_socket_gone: "(u, s) \<notin> set (remove_socket s idx)"
  by (force simp: remove_socket_def fold_delete_filter)

lemma remove_socket_filter:
  assumes "distinct (map fst idx)"
  shows "remove_socket s idx = filter (\<lambda>(uid, sid). sid \<noteq> s) idx"
proof -
  have "\<And>k v. (k, v) \<in> set idx \<Longrightarrow>
          (k \<notin> fst ` set (filter (\<lambda>(uid, sid). sid = s) idx)) = (v \<noteq> s)"
    using assms by (force dest: eq_key_imp_eq_value)
  then show ?thesis
    unfolding remove_socket_def fold_delete_filter
    by (intro filter_cong) auto
qed

lemma no_empty_rooms_get:
  "no_empty_rooms st \<Longrightarrow> map_get (rooms st) roomId = Some ps \<Longrightarrow> ps \<noteq> []"
  by (auto simp: no_empty_rooms_def list_all_iff dest!: map_of_SomeD)

subsection \<open>The disconnect sweep as a sequence of leaves\<close>

lemma rooms_leave_room: "rooms (fst (leave_room s roomId userId st)) = leave_rooms roomId userId (rooms st)"
  by (simp add: leave_room_def leave_rooms_def Let_def split: option.splits)

lemma index_leave_room:
  "userSocketMap (fst (leave_room s roomId userId st)) = remove_socket s (userSocketMap st)"
  by (simp add: leave_room_def Let_def split: option.splits prod.splits)

lemma leave_rooms_other:
  "roomId \<noteq> r0 \<Longrightarrow> leave_rooms roomId userId ((r0, ps0) # rs) = (r0, ps0) # leave_rooms roomId userId rs"
  by (simp add: leave_rooms_def split: option.splits)

lemma leave_rooms_absent: "roomId \<notin> fst ` set rs \<Longrightarrow> leave_rooms roomId userId rs = rs"
proof -
  assume "roomId \<notin> fst ` set rs"
  then have "map_get rs roomId = None" by (simp add: map_of_eq_None_iff)
  then show ?thesis by (simp add: leave_rooms_def)
qed

lemma leave_rooms_head:
  "roomId \<notin> fst ` set rs \<Longrightarrow>
   leave_rooms roomId userId ((roomId, ps) # rs) =
     (if map_delete userId ps = [] then rs else (roomId, map_delete userId ps) # rs)"
  by (simp add: leave_rooms_def)


lemma leaves_of_one_room:
  assumes "roomId \<notin> fst ` set rs"
  shows "fold (\<lambda>userId. leave_rooms roomId userId) us ((roomId, ps) # rs) =
           (if us \<noteq> [] \<and> fold map_delete us ps = [] then rs
            else (roomId, fold map_delete us ps) # rs)"
proof (induction us arbitrary: ps)
  case Nil
  show ?case by simp
next
  case (Cons u us)
  show ?case
  proof (cases "map_delete u ps = []")
    case True
    have "fold (\<lambda>userId. leave_rooms roomId userId) us rs = rs"
      using assms by (induction us) (auto simp: leave_rooms_absent)
    then show ?thesis using True assms by (simp add: leave_rooms_head fold_map_delete_Nil)
  next
    case False
    have "us = [] \<Longrightarrow> fold map_delete us (map_delete u ps) \<noteq> []" using False by simp
    then show ?thesis using False assms Cons.IH [of "map_delete u ps"]
      by (auto simp: leave_rooms_head)
  qed
qed

lemma leaves_pass_head:
  assumes "r0 \<notin> fst ` set pairs"
  shows "fold (\<lambda>(roomId, userId). leave_rooms roomId userId) pairs ((r0, ps0) # rs) =
           (r0, ps0) # fold (\<lambda>(roomId, userId). leave_rooms roomId userId) pairs rs"
  using assms
proof (induction pairs arbitrary: rs)
  case Nil
  show ?case by simp
next
  case (Cons p pairs)
  obtain r u where p: "p = (r, u)" by (cases p)
  have "r \<noteq> r0" using Cons.prems p by auto
  then show ?case using Cons p by (simp add: leave_rooms_other)
qed

lemma sweep_participants_result:
  "sweep_participants s roomId todo (cur, gone, evs) = (cur', gone', evs') \<Longrightarrow>
     cur' = fold map_delete (pinned_users s todo) cur \<and>
     gone' = (gone \<or> (pinned_users s todo \<noteq> [] \<and> cur' = []))"
proof (induction todo arbitrary: cur gone evs)
  case Nil
  then show ?case by (simp add: pinned_users_def)
next
  case (Cons x todo)
  obtain userId d where x: "x = (userId, d)" by (cases x)
  show ?case
  proof (cases "socketId d = s")
    case False
    then show ?thesis using Cons x by (simp add: pinned_users_def)
  next
    case True
    show ?thesis
    proof (cases "map_delete userId cur = []")
      case empty: True
      have "sweep_participants s roomId todo
              ([], True, evs @ [Emit (RoomExcept roomId s) (UserLeft userId)]) = (cur', gone', evs')"
        using Cons.prems x True empty by (simp add: Let_def)
      from Cons.IH [OF this] show ?thesis
        using True x empty by (simp add: pinned_users_def fold_map_delete_Nil)
    next
      case nonempty: False
      have "sweep_participants s roomId todo
              (map_delete userId cur, gone,
               evs @ [Emit (RoomExcept roomId s) (UserLeft userId),
                      Emit (ToRoom roomId) (ParticipantCount (length (map_delete userId cur)))])
            = (cur', gone', evs')"
        using Cons.prems x True nonempty by (simp add: Let_def)
      from Cons.IH [OF this] show ?thesis
        using True x nonempty by (auto simp: pinned_users_def)
    qed
  qed
qed

lemma pinned_rooms: "fst ` set (pinned s rs) \<subseteq> fst ` set rs"
  by (force simp: pinned_def)

lemma sweep_rooms_as_leaves:
  "distinct (map fst rs) \<Longrightarrow>
   fst (sweep_rooms s rs) = fold (\<lambda>(roomId, userId). leave_rooms roomId userId) (pinned s rs) rs"
proof (induction rs)
  case Nil
  show ?case by (simp add: pinned_def)
next
  case (Cons x rest)
  obtain roomId ps where x: "x = (roomId, ps)" by (cases x)
  have fresh: "roomId \<notin> fst ` set rest" and dist: "distinct (map fst rest)"
    using Cons.prems x by auto
  obtain cur' gone' evs' where sw: "sweep_participants s roomId ps (ps, False, []) = (cur', gone', evs')"
    by (cases "sweep_participants s roomId ps (ps, False, [])") auto
  note res = sweep_participants_result [OF sw]
  let ?us = "pinned_users s ps"
  have split: "pinned s ((roomId, ps) # rest) = map (Pair roomId) ?us @ pinned s rest"
    by (simp add: pinned_def)
  have one: "fold (\<lambda>(roomId, userId). leave_rooms roomId userId) (map (Pair roomId) ?us) ((roomId, ps) # rest)
             = fold (\<lambda>userId. leave_rooms roomId userId) ?us ((roomId, ps) # rest)"
    by (simp add: fold_map comp_def)
  have others: "roomId \<notin> fst ` set (pinned s rest)"
    using fresh pinned_rooms [of s rest] by auto
  let ?F = "\<lambda>(roomId, userId). leave_rooms roomId userId"
  have lhs: "fst (sweep_rooms s (x # rest)) =
               (if gone' then fst (sweep_rooms s rest) else (roomId, cur') # fst (sweep_rooms s rest))"
    using sw by (simp add: x split: prod.splits)
  have "fold ?F (pinned s (x # rest)) (x # rest) =
          fold ?F (pinned s rest) (fold ?F (map (Pair roomId) ?us) ((roomId, ps) # rest))"
    by (simp add: split x)
  also have "\<dots> = fold ?F (pinned s rest)
                      (if ?us \<noteq> [] \<and> fold map_delete ?us ps = [] then rest
                       else (roomId, fold map_delete ?us ps) # rest)"
    by (simp only: one leaves_of_one_room [OF fresh])
  also have "\<dots> = (if gone' then fst (sweep_rooms s rest) else (roomId, cur') # fst (sweep_rooms s rest))"
    using res Cons.IH [OF dist] leaves_pass_head [OF others] by simp
  finally show ?case using lhs by simp
qed

lemma remove_socket_idem: "remove_socket s (remove_socket s idx) = remove_socket s idx"
proof -
  have "filter (\<lambda>(uid, sid). sid = s) (remove_socket s idx) = []"
    using remove_socket_gone [of _ s idx] by (auto simp: filter_empty_conv)
  then show ?thesis by (simp add: remove_socket_def [of s "remove_socket s idx"])
qed

lemma leave_all_rooms:
  "rooms (leave_all s pairs st) = fold (\<lambda>(roomId, userId). leave_rooms roomId userId) pairs (rooms st)"
  unfolding leave_all_def
proof (induction pairs arbitrary: st)
  case Nil
  show ?case by simp
next
  case (Cons p pairs)
  obtain r u where p: "p = (r, u)" by (cases p)
  show ?case using Cons [of "fst (leave_room s r u st)"] by (simp add: p rooms_leave_room)
qed

lemma leave_all_index:
  "pairs \<noteq> [] \<Longrightarrow> userSocketMap (leave_all s pairs st) = remove_socket s (userSocketMap st)"
  unfolding leave_all_def
proof (induction pairs arbitrary: st)
  case Nil
  then show ?case by simp
next
  case (Cons p pairs)
  obtain r u where p: "p = (r, u)" by (cases p)
  show ?case
  proof (cases "pairs = []")
    case True
    then show ?thesis by (simp add: p index_leave_room)
  next
    case False
    from Cons.IH [OF this, of "fst (leave_room s r u st)"]
    show ?thesis by (simp add: p index_leave_room remove_socket_idem)
  qed
qed

lemma disconnect_rooms: "rooms (fst (disconnect s st)) = fst (sweep_rooms s (rooms st))"
  by (simp add: disconnect_def split: prod.splits)

lemma disconnect_index: "userSocketMap (fst (disconnect s st)) = remove_socket s (userSocketMap st)"
  by (simp add: disconnect_def split: prod.splits)

subsection \<open>Every handler keeps the registry well formed\<close>

lemma rooms_join_room:
  "rooms (fst (join_room s roomId userId nick st)) =
     map_set roomId
       (map_set userId \<lparr>socketId = s, nickname = nick\<rparr> (map_delete userId (room_of (rooms st) roomId)))
       (rooms st)"
proof (cases "map_get (rooms st) roomId")
  case None
  then show ?thesis
    by (simp add: join_room_def Let_def map_has_def room_of_def update_conv')
next
  case (Some ps)
  show ?thesis
  proof (cases "map_has ps userId")
    case True
    then show ?thesis using Some
      by (simp add: join_room_def Let_def map_has_set room_of_set) (simp add: room_of_def)
  next
    case False
    have "map_has (rooms st) roomId" using Some by (simp add: map_has_def)
    then show ?thesis using Some False map_delete_absent [OF False]
      by (simp add: join_room_def Let_def room_of_def)
  qed
qed

lemma groups_join_room:
  "groups (fst (join_room s roomId userId nick st)) = (groups st)(roomId := insert s (groups st roomId))"
  by (simp add: join_room_def Let_def)

lemma index_join_room:
  "userSocketMap (fst (join_room s roomId userId nick st)) = map_set userId s (userSocketMap st)"
  by (simp add: join_room_def Let_def)

lemma list_all_map_set: "P (k, v) \<Longrightarrow> list_all P al \<Longrightarrow> list_all P (map_set k v al)"
  using set_map_set_subset [of k v al] by (auto simp: list_all_iff)

lemma list_all_map_delete: "list_all P al \<Longrightarrow> list_all P (map_delete k al)"
  by (auto simp: list_all_iff AList.delete_eq)

lemma room_of_distinct: "list_all room_ok rs \<Longrightarrow> distinct (map fst (room_of rs roomId))"
  by (auto simp: room_of_def list_all_iff room_ok_def split: option.splits dest!: map_of_SomeD)

lemma distinct_remove_socket: "distinct (map fst idx) \<Longrightarrow> distinct (map fst (remove_socket s idx))"
  by (simp add: remove_socket_def fold_delete_filter distinct_map_filter)

lemma join_room_ok: "registry_ok st \<Longrightarrow> registry_ok (fst (join_room s roomId userId nick st))"
  unfolding registry_ok_def rooms_join_room index_join_room
  by (auto intro!: list_all_map_set distinct_update
      simp: room_ok_def distinct_delete room_of_distinct)

lemma leave_rooms_ok:
  assumes "list_all room_ok rs" and "distinct (map fst rs)"
  shows "list_all room_ok (leave_rooms roomId userId rs) \<and> distinct (map fst (leave_rooms roomId userId rs))"
proof (cases "map_get rs roomId")
  case None
  then show ?thesis using assms by (simp add: leave_rooms_def)
next
  case (Some ps)
  then have "room_ok (roomId, ps)" using assms(1) by (auto simp: list_all_iff dest!: map_of_SomeD)
  then have "map_delete userId ps \<noteq> [] \<Longrightarrow> room_ok (roomId, map_delete userId ps)"
    by (simp add: room_ok_def distinct_delete)
  then show ?thesis using Some assms
    by (auto simp: leave_rooms_def list_all_map_set list_all_map_delete distinct_delete distinct_update)
qed

lemma leave_room_ok: "registry_ok st \<Longrightarrow> registry_ok (fst (leave_room s roomId userId st))"
  unfolding registry_ok_def rooms_leave_room index_leave_room
  using leave_rooms_ok [of "rooms st" roomId userId] by (simp add: distinct_remove_socket)

lemma fold_leave_rooms_ok:
  "list_all room_ok rs \<Longrightarrow> distinct (map fst rs) \<Longrightarrow>
   list_all room_ok (fold (\<lambda>(roomId, userId). leave_rooms roomId userId) pairs rs)
   \<and> distinct (map fst (fold (\<lambda>(roomId, userId). leave_rooms roomId userId) pairs rs))"
proof (induction pairs arbitrary: rs)
  case Nil
  then show ?case by simp
next
  case (Cons p pairs)
  obtain r u where p: "p = (r, u)" by (cases p)
  show ?case using Cons.IH [of "leave_rooms r u rs"] leave_rooms_ok [OF Cons.prems, of r u]
    by (simp add: p)
qed

lemma disconnect_ok: "registry_ok st \<Longrightarrow> registry_ok (fst (disconnect s st))"
  unfolding registry_ok_def disconnect_rooms disconnect_index
  using fold_leave_rooms_ok [of "rooms st" "pinned s (rooms st)"]
  by (simp add: sweep_rooms_as_leaves distinct_remove_socket)

lemma connection_handler_fields [simp]:
  "rooms (fst (connection_handler s st)) = rooms st"
  "userSocketMap (fst (connection_handler s st)) = userSocketMap st"
  "groups (fst (connection_handler s st)) = (groups st)(s := insert s (groups st s))"
  by (simp_all add: connection_handler_def)

lemma connection_handler_ok: "registry_ok st \<Longrightarrow> registry_ok (fst (connection_handler s st))"
  by (simp add: registry_ok_def)

lemma step_ok: "registry_ok st \<Longrightarrow> registry_ok (step x st)"
  by (cases x) (simp_all add: join_room_ok leave_room_ok disconnect_ok connection_handler_ok)

lemma run_ok: "registry_ok st \<Longrightarrow> registry_ok (run ops st)"
  unfolding run_def by (induction ops arbitrary: st) (simp_all add: step_ok)

lemma empty_registry_ok: "registry_ok empty_registry"
  by (simp add: registry_ok_def empty_registry_def)

lemma run_snoc: "run (ops @ [x]) st = step x (run ops st)"
  by (simp add: run_def)

lemma remove_socket_values: "s \<notin> snd ` set (remove_socket s idx)"
  using remove_socket_gone [of _ s idx] by force

subsection \<open>Runs that keep the index consistent\<close>

lemma member_socket_join:
  "member_socket (rooms (fst (join_room s roomId userId nick st))) r u =
     (if r = roomId \<and> u = userId then Some s else member_socket (rooms st) r u)"
  unfolding rooms_join_room
  by (auto simp: member_socket_def update_conv' delete_conv' room_of_def split: option.splits)

lemma map_delete_Nil_get: "map_delete k ps = [] \<Longrightarrow> u \<noteq> k \<Longrightarrow> map_get ps u = None"
  using map_of_delete [of u k ps] by simp

lemma member_socket_leave:
  "member_socket (leave_rooms roomId userId rs) r u =
     (if r = roomId \<and> u = userId then None else member_socket rs r u)"
  by (auto simp: member_socket_def leave_rooms_def update_conv' delete_conv' map_delete_Nil_get
      split: option.splits)

lemma member_socket_leaves:
  "member_socket (fold (\<lambda>(roomId, userId). leave_rooms roomId userId) pairs rs) r u =
     (if (r, u) \<in> set pairs then None else member_socket rs r u)"
proof (induction pairs arbitrary: rs)
  case Nil
  show ?case by simp
next
  case (Cons p pairs)
  obtain r0 u0 where p: "p = (r0, u0)" by (cases p)
  show ?case using Cons [of "leave_rooms r0 u0 rs"] by (auto simp: p member_socket_leave)
qed

lemma in_pinned_users:
  "u \<in> set (pinned_users s ps) \<longleftrightarrow> (\<exists>d. (u, d) \<in> set ps \<and> socketId d = s)"
proof -
  have "set (pinned_users s ps) = fst ` {x \<in> set ps. socketId (snd x) = s}"
    by (simp add: pinned_users_def case_prod_unfold)
  then show ?thesis by (simp add: image_iff)
qed

lemma in_pinned:
  "(r, u) \<in> set (pinned s rs) \<longleftrightarrow> (\<exists>ps. (r, ps) \<in> set rs \<and> u \<in> set (pinned_users s ps))"
proof (induction rs)
  case Nil
  show ?case by (simp add: pinned_def)
next
  case (Cons x rs)
  obtain r0 ps0 where x: "x = (r0, ps0)" by (cases x)
  have "pinned s (x # rs) = map (Pair r0) (pinned_users s ps0) @ pinned s rs"
    by (simp add: pinned_def x)
  then show ?case using Cons x by auto
qed


lemma pinned_iff:
  assumes keys: "distinct (map fst rs)" and oks: "list_all room_ok rs"
  shows "(r, u) \<in> set (pinned s rs) \<longleftrightarrow> member_socket rs r u = Some s"
proof
  assume "(r, u) \<in> set (pinned s rs)"
  then obtain ps where in_rs: "(r, ps) \<in> set rs" and "u \<in> set (pinned_users s ps)"
    unfolding in_pinned by blast
  then obtain d where in_ps: "(u, d) \<in> set ps" and sock: "socketId d = s"
    unfolding in_pinned_users by blast
  have "room_ok (r, ps)" using oks in_rs by (simp add: list_all_iff)
  then have "distinct (map fst ps)" by (simp add: room_ok_def)
  then have "map_get ps u = Some d" using in_ps by simp
  moreover have "map_get rs r = Some ps" using keys in_rs by simp
  ultimately show "member_socket rs r u = Some s" using sock by (simp add: member_socket_def)
next
  assume mem: "member_socket rs r u = Some s"
  then obtain ps where ps: "map_get rs r = Some ps"
    by (cases "map_get rs r") (simp_all add: member_socket_def)
  then obtain d where d: "map_get ps u = Some d" and sock: "socketId d = s"
    using mem by (cases "map_get ps u") (simp_all add: member_socket_def)
  have "(r, ps) \<in> set rs" using ps by (rule map_of_SomeD)
  moreover have "(u, d) \<in> set ps" using d by (rule map_of_SomeD)
  then have "u \<in> set (pinned_users s ps)" using sock unfolding in_pinned_users by blast
  ultimately show "(r, u) \<in> set (pinned s rs)" unfolding in_pinned by blast
qed

lemma member_socket_disconnect:
  assumes "registry_ok st"
  shows "member_socket (rooms (fst (disconnect s st))) r u =
           (if member_socket (rooms st) r u = Some s then None else member_socket (rooms st) r u)"
  using assms
  by (simp add: disconnect_rooms sweep_rooms_as_leaves member_socket_leaves pinned_iff registry_ok_def)

lemma map_get_filter:
  "distinct (map fst xs) \<Longrightarrow>
   map_get (filter P xs) k = (case map_get xs k of None \<Rightarrow> None | Some v \<Rightarrow> if P (k, v) then Some v else None)"
proof (induction xs)
  case Nil
  show ?case by simp
next
  case (Cons x xs)
  obtain a b where x: "x = (a, b)" by (cases x)
  have "a \<notin> fst ` set xs" using Cons.prems x by auto
  then have "map_get xs a = None" by (simp add: map_of_eq_None_iff)
  then show ?case using Cons x by (auto split: option.splits)
qed

lemma index_remove_socket:
  "distinct (map fst idx) \<Longrightarrow>
   map_get (remove_socket s idx) u = (if map_get idx u = Some s then None else map_get idx u)"
  by (auto simp: remove_socket_filter map_get_filter split: option.splits)

lemma agreesI:
  assumes "\<And>r u s. member_socket rs r u = Some s \<Longrightarrow> map_get idx u = Some s"
      and "\<And>u s. map_get idx u = Some s \<Longrightarrow> \<exists>r. member_socket rs r u = Some s"
  shows "agrees rs idx"
  using assms unfolding agrees_def by blast

lemma agrees_member: "agrees rs idx \<Longrightarrow> member_socket rs r u = Some s \<Longrightarrow> map_get idx u = Some s"
  unfolding agrees_def by blast

lemma agrees_index: "agrees rs idx \<Longrightarrow> map_get idx u = Some s \<Longrightarrow> \<exists>r. member_socket rs r u = Some s"
  unfolding agrees_def by blast

lemma agrees_join:
  assumes ag: "agrees (rooms st) (userSocketMap st)"
      and pre: "step_allowed (Join s roomId userId nick) st"
  shows "agrees (rooms (fst (join_room s roomId userId nick st)))
                (userSocketMap (fst (join_room s roomId userId nick st)))"
proof (rule agreesI)
  have others: "s' = s" if neq: "r \<noteq> roomId" and mem: "member_socket (rooms st) r userId = Some s'" for r s'
  proof -
    obtain ps d where ps: "map_get (rooms st) r = Some ps" and d: "map_get ps userId = Some d"
      and s': "socketId d = s'"
      using mem by (auto simp: member_socket_def split: option.splits)
    have "(r, ps) \<in> set (rooms st)" using ps by (rule map_of_SomeD)
    then show ?thesis using pre neq d s' by (auto simp: list_all_iff)
  qed
  fix r u s'
  assume m: "member_socket (rooms (fst (join_room s roomId userId nick st))) r u = Some s'"
  show "map_get (userSocketMap (fst (join_room s roomId userId nick st))) u = Some s'"
  proof (cases "u = userId")
    case True
    have "s' = s"
    proof (cases "r = roomId")
      case True
      then show ?thesis using m \<open>u = userId\<close> by (simp add: member_socket_join)
    next
      case False
      then have "member_socket (rooms st) r userId = Some s'"
        using m \<open>u = userId\<close> by (simp add: member_socket_join)
      with False show ?thesis by (rule others)
    qed
    then show ?thesis using True by (simp add: index_join_room update_conv')
  next
    case False
    then have "member_socket (rooms st) r u = Some s'" using m by (simp add: member_socket_join)
    then have "map_get (userSocketMap st) u = Some s'" using ag by (rule agrees_member [rotated])
    then show ?thesis using False by (simp add: index_join_room update_conv')
  qed
next
  fix u s'
  assume i: "map_get (userSocketMap (fst (join_room s roomId userId nick st))) u = Some s'"
  show "\<exists>r. member_socket (rooms (fst (join_room s roomId userId nick st))) r u = Some s'"
  proof (cases "u = userId")
    case True
    then have "s' = s" using i by (simp add: index_join_room update_conv')
    then have "member_socket (rooms (fst (join_room s roomId userId nick st))) roomId u = Some s'"
      using True by (simp add: member_socket_join)
    then show ?thesis ..
  next
    case False
    then have "map_get (userSocketMap st) u = Some s'" using i by (simp add: index_join_room update_conv')
    then obtain r where "member_socket (rooms st) r u = Some s'"
      using ag agrees_index by blast
    then have "member_socket (rooms (fst (join_room s roomId userId nick st))) r u = Some s'"
      using False by (simp add: member_socket_join)
    then show ?thesis ..
  qed
qed

lemma agrees_leave:
  assumes ag: "agrees (rooms st) (userSocketMap st)" and ok: "registry_ok st"
      and pre: "step_allowed (Leave s roomId userId) st"
  shows "agrees (rooms (fst (leave_room s roomId userId st)))
                (userSocketMap (fst (leave_room s roomId userId st)))"
proof (rule agreesI)
  have keys: "distinct (map fst (userSocketMap st))" using ok by (simp add: registry_ok_def)
  have only: "r = roomId \<and> u = userId" if mem: "member_socket (rooms st) r u = Some s" for r u
  proof -
    have "(r, u) \<in> set (pinned s (rooms st))"
      using mem ok by (simp add: pinned_iff registry_ok_def)
    then show ?thesis using pre by (auto simp: list_all_iff)
  qed
  have own: "s' = s" if "member_socket (rooms st) roomId userId = Some s'" for s'
    using pre that by simp
  {
    fix r u s'
    assume m: "member_socket (rooms (fst (leave_room s roomId userId st))) r u = Some s'"
    then have other: "\<not> (r = roomId \<and> u = userId)" and before: "member_socket (rooms st) r u = Some s'"
      by (auto simp: rooms_leave_room member_socket_leave split: if_splits)
    have "s' \<noteq> s" using before other only by blast
    moreover have "map_get (userSocketMap st) u = Some s'" using ag before by (rule agrees_member)
    ultimately show "map_get (userSocketMap (fst (leave_room s roomId userId st))) u = Some s'"
      by (simp add: index_leave_room index_remove_socket [OF keys])
  next
    fix u s'
    assume i: "map_get (userSocketMap (fst (leave_room s roomId userId st))) u = Some s'"
    then have neq: "s' \<noteq> s" and before: "map_get (userSocketMap st) u = Some s'"
      by (auto simp: index_leave_room index_remove_socket [OF keys] split: if_splits)
    obtain r where mem: "member_socket (rooms st) r u = Some s'"
      using ag before agrees_index by blast
    have "\<not> (r = roomId \<and> u = userId)" using mem neq own by blast
    then have "member_socket (rooms (fst (leave_room s roomId userId st))) r u = Some s'"
      using mem by (simp add: rooms_leave_room member_socket_leave)
    then show "\<exists>r. member_socket (rooms (fst (leave_room s roomId userId st))) r u = Some s'" ..
  }
qed

lemma agrees_disconnect:
  assumes ag: "agrees (rooms st) (userSocketMap st)" and ok: "registry_ok st"
  shows "agrees (rooms (fst (disconnect s st))) (userSocketMap (fst (disconnect s st)))"
proof (rule agreesI)
  have keys: "distinct (map fst (userSocketMap st))" using ok by (simp add: registry_ok_def)
  {
    fix r u s'
    assume m: "member_socket (rooms (fst (disconnect s st))) r u = Some s'"
    then have neq: "s' \<noteq> s" and before: "member_socket (rooms st) r u = Some s'"
      by (auto simp: member_socket_disconnect [OF ok] split: if_splits)
    have "map_get (userSocketMap st) u = Some s'" using ag before by (rule agrees_member)
    then show "map_get (userSocketMap (fst (disconnect s st))) u = Some s'"
      using neq by (simp add: disconnect_index index_remove_socket [OF keys])
  next
    fix u s'
    assume i: "map_get (userSocketMap (fst (disconnect s st))) u = Some s'"
    then have neq: "s' \<noteq> s" and before: "map_get (userSocketMap st) u = Some s'"
      by (auto simp: disconnect_index index_remove_socket [OF keys] split: if_splits)
    obtain r where mem: "member_socket (rooms st) r u = Some s'"
      using ag before agrees_index by blast
    then have "member_socket (rooms (fst (disconnect s st))) r u = Some s'"
      using neq by (simp add: member_socket_disconnect [OF ok])
    then show "\<exists>r. member_socket (rooms (fst (disconnect s st))) r u = Some s'" ..
  }
qed

lemma agrees_step:
  "agrees (rooms st) (userSocketMap st) \<Longrightarrow> registry_ok st \<Longrightarrow> step_allowed x st \<Longrightarrow>
   agrees (rooms (step x st)) (userSocketMap (step x st))"
  by (cases x) (simp_all add: agrees_join agrees_leave agrees_disconnect)

lemma agrees_run:
  "agrees (rooms st) (userSocketMap st) \<Longrightarrow> registry_ok st \<Longrightarrow> valid_run st ops \<Longrightarrow>
   agrees (rooms (run ops st)) (userSocketMap (run ops st))"
proof (induction ops arbitrary: st)
  case Nil
  then show ?case by (simp add: run_def)
next
  case (Cons x ops)
  have "run (x # ops) st = run ops (step x st)" by (simp add: run_def)
  then show ?case
    using Cons.IH [of "step x st"] Cons.prems agrees_step [of st x] step_ok [of st x] by simp
qed

lemma agrees_index_consistent:
  assumes ag: "agrees (rooms st) (userSocketMap st)" and ok: "registry_ok st"
  shows "index_consistent st"
proof -
  have part1: "map_get (userSocketMap st) u = Some (socketId d)"
    if inr: "(r, ps) \<in> set (rooms st)" and inp: "(u, d) \<in> set ps" for r ps u d
  proof -
    have "distinct (map fst ps)" using ok inr by (auto simp: registry_ok_def list_all_iff room_ok_def)
    then have "map_get ps u = Some d" using inp by simp
    moreover have "map_get (rooms st) r = Some ps" using ok inr by (simp add: registry_ok_def)
    ultimately have "member_socket (rooms st) r u = Some (socketId d)" by (simp add: member_socket_def)
    then show ?thesis using ag by (simp add: agrees_def)
  qed
  have part2: "\<exists>(r, ps) \<in> set (rooms st). map_has ps u" if "(u, sid) \<in> set (userSocketMap st)" for u sid
  proof -
    have "map_get (userSocketMap st) u = Some sid" using ok that by (simp add: registry_ok_def)
    then obtain r where "member_socket (rooms st) r u = Some sid" using ag agrees_index by blast
    then obtain ps where "map_get (rooms st) r = Some ps" "map_has ps u"
      by (auto simp: member_socket_def map_has_def split: option.splits)
    then show ?thesis by (auto dest: map_of_SomeD)
  qed
  show ?thesis
    unfolding index_consistent_def list_all_iff list_ex_iff
    using part1 part2 by fastforce
qed

lemma valid_run_index_consistent:
  assumes "valid_run empty_registry ops"
  shows "index_consistent (run ops empty_registry)"
proof -
  have "agrees (rooms empty_registry) (userSocketMap empty_registry)"
    by (simp add: agrees_def empty_registry_def member_socket_def)
  then have "agrees (rooms (run ops empty_registry)) (userSocketMap (run ops empty_registry))"
    using empty_registry_ok assms by (rule agrees_run)
  then show ?thesis using run_ok [OF empty_registry_ok] by (rule agrees_index_consistent)
qed

subsection \<open>C1: invariants of the registry\<close>

text \<open>
  C1 (as amended). After any sequence of joins, leaves and disconnects from the empty
  registry no room is empty and no room holds a user id twice. The index is consistent with
  the rooms after every run that keeps the discipline \<open>valid_run\<close>; without it the index can
  fall out of step. In any run, right after a join of \<open>userId\<close> over socket \<open>s\<close> the index maps
  \<open>userId\<close> to \<open>s\<close> and the entry of \<open>userId\<close> in the joined room stores \<open>s\<close>, and right after a
  leave sent over \<open>s\<close> or the disconnect of \<open>s\<close> no index entry maps to \<open>s\<close>.
\<close>

theorem registry_invariants:
  "no_empty_rooms (run ops empty_registry)
   \<and> unique_users (run ops empty_registry)
   \<and> (valid_run empty_registry ops \<longrightarrow> index_consistent (run ops empty_registry))
   \<and> map_get (userSocketMap (run (ops @ [Join s roomId userId nick]) empty_registry)) userId = Some s
   \<and> map_get (room_of (rooms (run (ops @ [Join s roomId userId nick]) empty_registry)) roomId) userId
       = Some \<lparr>socketId = s, nickname = nick\<rparr>
   \<and> s \<notin> snd ` set (userSocketMap (run (ops @ [Leave s roomId userId]) empty_registry))
   \<and> s \<notin> snd ` set (userSocketMap (run (ops @ [Disconnect s]) empty_registry))"
proof -
  have "registry_ok (run ops empty_registry)"
    using empty_registry_ok by (rule run_ok)
  then have ab: "no_empty_rooms (run ops empty_registry) \<and> unique_users (run ops empty_registry)"
    by (auto simp: registry_ok_def no_empty_rooms_def unique_users_def room_ok_def list_all_iff)
  have c: "valid_run empty_registry ops \<longrightarrow> index_consistent (run ops empty_registry)"
    using valid_run_index_consistent by blast
  show ?thesis
    using ab c
    by (simp add: run_snoc rooms_join_room index_join_room room_of_set update_conv'
        index_leave_room disconnect_index remove_socket_values)
qed

theorem registry_invariants_witness:
  "valid_run empty_registry rejoin_then_leave
   \<and> index_consistent (run rejoin_then_leave empty_registry)
   \<and> rooms (run rejoin_then_leave empty_registry)
     = [(''R'', [(''u1'', \<lparr>socketId = ''s3'', nickname = ''A''\<rparr>)])]
   \<and> userSocketMap (run rejoin_then_leave empty_registry)
     = [(''u1'', ''s3'')]"
proof -
  let ?ops = rejoin_then_leave
  have v: "valid_run empty_registry ?ops" by code_simp
  have r: "rooms (run ?ops empty_registry) = [(''R'', [(''u1'', \<lparr>socketId = ''s3'', nickname = ''A''\<rparr>)])]"
    by code_simp
  have i: "userSocketMap (run ?ops empty_registry) = [(''u1'', ''s3'')]" by code_simp
  have "index_consistent (run ?ops empty_registry)"
    using v registry_invariants [of ?ops] by blast
  then show ?thesis using v r i by blast
qed

text \<open>
  The claim as stated fails: the same user id joins two rooms over two sockets and the second
  socket disconnects. The user is still a member of the first room and has no index entry.
\<close>

theorem index_inconsistent_counterexample:
  "rooms (run [Join ''s1'' ''R1'' ''u1'' ''A'', Join ''s2'' ''R2'' ''u1'' ''A'', Disconnect ''s2'']
            empty_registry)
     = [(''R1'', [(''u1'', \<lparr>socketId = ''s1'', nickname = ''A''\<rparr>)])]
   \<and> userSocketMap (run [Join ''s1'' ''R1'' ''u1'' ''A'', Join ''s2'' ''R2'' ''u1'' ''A'', Disconnect ''s2'']
            empty_registry) = []
   \<and> \<not> index_consistent (run [Join ''s1'' ''R1'' ''u1'' ''A'', Join ''s2'' ''R2'' ''u1'' ''A'',
            Disconnect ''s2''] empty_registry)"
  by code_simp

subsection \<open>C2: disconnect and leave\<close>

text \<open>Leaves commute, so the order in which the pairs of a socket leave does not matter.\<close>

lemma map_set_swap_present:
  "k \<noteq> k' \<Longrightarrow> k \<in> fst ` set al \<Longrightarrow> k' \<in> fst ` set al \<Longrightarrow>
   map_set k v (map_set k' v' al) = map_set k' v' (map_set k v al)"
  by (induction al) auto

lemma leave_rooms_commute:
  "leave_rooms r u (leave_rooms r' u' rs) = leave_rooms r' u' (leave_rooms r u rs)"
proof (cases "r = r'")
  case True
  show ?thesis
  proof (cases "map_get rs r")
    case None
    then show ?thesis using True by (simp add: leave_rooms_def)
  next
    case (Some ps)
    have tw: "map_delete u (map_delete u' ps) = map_delete u' (map_delete u ps)"
      by (rule delete_twist)
    show ?thesis
      using True Some tw
      by (auto simp: leave_rooms_def update_conv' delete_conv' delete_update_same)
  qed
next
  case False
  show ?thesis
  proof (cases "map_get rs r")
    case None
    then have "map_get (leave_rooms r' u' rs) r = None"
      using False by (simp add: leave_rooms_def update_conv' delete_conv' split: option.splits)
    then show ?thesis using None by (simp add: leave_rooms_def [of r u])
  next
    case (Some ps)
    then have g1: "map_get (leave_rooms r' u' rs) r = Some ps"
      using False by (simp add: leave_rooms_def update_conv' delete_conv' split: option.splits)
    show ?thesis
    proof (cases "map_get rs r'")
      case None
      then have "map_get (leave_rooms r u rs) r' = None"
        using False by (simp add: leave_rooms_def update_conv' delete_conv' split: option.splits)
      then show ?thesis using None by (simp add: leave_rooms_def [of r' u'])
    next
      case ps': (Some ps')
      then have g2: "map_get (leave_rooms r u rs) r' = Some ps'"
        using False by (simp add: leave_rooms_def update_conv' delete_conv' split: option.splits)
      have in1: "r \<in> fst ` set rs" and in2: "r' \<in> fst ` set rs"
        using Some ps' by (auto intro: map_get_in_dom)
      have sw: "\<And>v v'. map_set r v (map_set r' v' rs) = map_set r' v' (map_set r v rs)"
        using False in1 in2 by (simp add: map_set_swap_present)
      have du: "\<And>v. map_delete r (map_set r' v rs) = map_set r' v (map_delete r rs)"
               "\<And>v. map_delete r' (map_set r v rs) = map_set r v (map_delete r' rs)"
        using False by (simp_all add: delete_update)
      show ?thesis
        unfolding leave_rooms_def [of r u "leave_rooms r' u' rs"] leave_rooms_def [of r' u' "leave_rooms r u rs"] g1 g2
        using Some ps' sw du
        by (simp add: leave_rooms_def delete_twist)
    qed
  qed
qed

lemma fold_leave_rooms_permuted:
  assumes "mset pairs = mset pairs'"
  shows "fold (\<lambda>(roomId, userId). leave_rooms roomId userId) pairs rs
       = fold (\<lambda>(roomId, userId). leave_rooms roomId userId) pairs' rs"
proof -
  have "fold (\<lambda>(roomId, userId). leave_rooms roomId userId) pairs
      = fold (\<lambda>(roomId, userId). leave_rooms roomId userId) pairs'"
    by (rule fold_multiset_equiv) (auto simp: fun_eq_iff leave_rooms_commute assms)
  then show ?thesis by simp
qed

text \<open>
  C2 (as amended). In a registry whose room ids are distinct keys, the disconnect of socket
  \<open>s\<close> leaves the same rooms as the leaves, sent over \<open>s\<close> in any order, of the (room, user)
  pairs whose entry stores \<open>s\<close>. The disconnect always removes every index entry that maps to
  \<open>s\<close>; the leaves do so as well when there is at least one such pair, and with no such pair
  there is no leave and the index stays as it is.
\<close>

theorem disconnect_as_leaves:
  assumes keys: "distinct (map fst (rooms st))"
      and pairs: "mset pairs = mset (pinned s (rooms st))"
  shows "rooms (fst (disconnect s st)) = rooms (leave_all s pairs st)
       \<and> userSocketMap (fst (disconnect s st)) = remove_socket s (userSocketMap st)
       \<and> userSocketMap (leave_all s pairs st) =
           (if pairs = [] then userSocketMap st else remove_socket s (userSocketMap st))"
proof -
  have none: "leave_all s [] st = st" by (simp add: leave_all_def)
  have "rooms (leave_all s pairs st) =
          fold (\<lambda>(roomId, userId). leave_rooms roomId userId) (pinned s (rooms st)) (rooms st)"
    unfolding leave_all_rooms using pairs by (rule fold_leave_rooms_permuted)
  then show ?thesis
    using keys none
    by (simp add: disconnect_rooms disconnect_index leave_all_index sweep_rooms_as_leaves)
qed

theorem disconnect_as_leaves_witness:
  "pinned ''s1'' (rooms two_rooms)
     = [(''R1'', ''u1''), (''R2'', ''u1'')]
   \<and> rooms (fst (disconnect ''s1'' two_rooms))
     = [(''R1'', [(''u2'', \<lparr>socketId = ''s2'', nickname = ''B''\<rparr>)])]
   \<and> rooms (leave_all ''s1'' [(''R2'', ''u1''), (''R1'', ''u1'')]
        two_rooms)
     = [(''R1'', [(''u2'', \<lparr>socketId = ''s2'', nickname = ''B''\<rparr>)])]
   \<and> userSocketMap (leave_all ''s1'' [(''R2'', ''u1''), (''R1'', ''u1'')]
        two_rooms)
     = [(''u2'', ''s2'')]"
proof -
  let ?st = "two_rooms"
  have keys: "distinct (map fst (rooms ?st))" by code_simp
  have pin: "pinned ''s1'' (rooms ?st) = [(''R1'', ''u1''), (''R2'', ''u1'')]" by code_simp
  have pairs: "mset [(''R2'', ''u1''), (''R1'', ''u1'')] = mset (pinned ''s1'' (rooms ?st))"
    unfolding pin by (simp add: add_mset_commute)
  have swept: "rooms (fst (disconnect ''s1'' ?st)) = [(''R1'', [(''u2'', \<lparr>socketId = ''s2'', nickname = ''B''\<rparr>)])]"
    by code_simp
  have idx: "remove_socket ''s1'' (userSocketMap ?st) = [(''u2'', ''s2'')]" by code_simp
  show ?thesis
    using pin swept idx disconnect_as_leaves [OF keys pairs] by simp
qed

text \<open>
  The claim as stated fails: \<open>u1\<close> reloads the page, the new socket \<open>s2\<close> joins before the
  leave of the old socket \<open>s1\<close> arrives. That leave removes the entry of \<open>u1\<close> (now stored under
  \<open>s2\<close>) and with it the room, and keeps the index entry. No pair is then pinned to \<open>s2\<close>, yet
  the disconnect of \<open>s2\<close> empties the index.
\<close>

theorem disconnect_as_leaves_counterexample:
  "pinned ''s2'' (rooms (run [Join ''s1'' ''R'' ''u1'' ''A'', Join ''s2'' ''R'' ''u1'' ''A'',
                              Leave ''s1'' ''R'' ''u1''] empty_registry)) = []
   \<and> userSocketMap (fst (disconnect ''s2''
        (run [Join ''s1'' ''R'' ''u1'' ''A'', Join ''s2'' ''R'' ''u1'' ''A'', Leave ''s1'' ''R'' ''u1'']
           empty_registry))) = []
   \<and> userSocketMap (leave_all ''s2'' []
        (run [Join ''s1'' ''R'' ''u1'' ''A'', Join ''s2'' ''R'' ''u1'' ''A'', Leave ''s1'' ''R'' ''u1'']
           empty_registry)) = [(''u1'', ''s2'')]"
  by code_simp

subsection \<open>C3: rejoin\<close>





subsection \<open>C4: leave of an absent member\<close>

text \<open>
  C4 (as amended). A leave for a room that does not exist, or that holds no entry for the
  user, in a registry without empty rooms: the rooms stay as they are; the index loses
  exactly its entries that map to the sending socket \<open>s\<close> (so it is unchanged when \<open>s\<close> is not
  indexed); and the handler still emits \<^verbatim>\<open>userLeft\<close> to the room's group without \<open>s\<close>, after
  the member count when the room exists.
\<close>

theorem leave_absent_member:
  assumes absent: "\<not> map_has (room_of (rooms st) roomId) userId"
      and nonempty: "no_empty_rooms st"
      and keys: "distinct (map fst (userSocketMap st))"
  shows "rooms (fst (leave_room s roomId userId st)) = rooms st
       \<and> userSocketMap (fst (leave_room s roomId userId st)) =
           filter (\<lambda>(uid, sid). sid \<noteq> s) (userSocketMap st)
       \<and> emitted (snd (leave_room s roomId userId st)) =
           (case map_get (rooms st) roomId of
              None \<Rightarrow> []
            | Some ps \<Rightarrow> [(ToRoom roomId, ParticipantCount (length ps))])
           @ [(RoomExcept roomId s, UserLeft userId)]"
proof (cases "map_get (rooms st) roomId")
  case None
  then show ?thesis
    using remove_socket_filter [OF keys] by (simp add: leave_room_def)
next
  case (Some ps)
  have "\<not> map_has ps userId" using absent Some by (simp add: room_of_def)
  then have same: "map_delete userId ps = ps" by (rule map_delete_absent)
  have ne: "ps \<noteq> []" using nonempty Some by (rule no_empty_rooms_get)
  have put: "map_set roomId ps (rooms st) = rooms st" using Some by (rule update_triv)
  show ?thesis
    using Some same ne put remove_socket_filter [OF keys]
    by (simp add: leave_room_def Let_def)
qed

theorem leave_absent_member_witness:
  "\<not> map_has (room_of (rooms two_members) ''R'') ''u3''
   \<and> rooms (fst (leave_room ''s3'' ''R'' ''u3'' two_members))
     = rooms two_members
   \<and> userSocketMap (fst (leave_room ''s3'' ''R'' ''u3'' two_members))
     = [(''u1'', ''s1''), (''u2'', ''s2'')]
   \<and> emitted (snd (leave_room ''s3'' ''R'' ''u3'' two_members))
     = [(ToRoom ''R'', ParticipantCount 2), (RoomExcept ''R'' ''s3'', UserLeft ''u3'')]"
proof -
  let ?st = "two_members"
  have absent: "\<not> map_has (room_of (rooms ?st) ''R'') ''u3''" by code_simp
  have nonempty: "no_empty_rooms ?st" by code_simp
  have keys: "distinct (map fst (userSocketMap ?st))" by code_simp
  have idx: "filter (\<lambda>(uid, sid). sid \<noteq> ''s3'') (userSocketMap ?st) = [(''u1'', ''s1''), (''u2'', ''s2'')]"
    by code_simp
  have room: "map_get (rooms ?st) ''R''
     = Some [(''u1'', \<lparr>socketId = ''s1'', nickname = ''A''\<rparr>), (''u2'', \<lparr>socketId = ''s2'', nickname = ''B''\<rparr>)]"
    by code_simp
  show ?thesis
    using absent idx room leave_absent_member [OF absent nonempty keys, of "''s3''"]
    by simp
qed

text \<open>
  The claim as stated fails: \<open>u1\<close> sits in room \<open>R1\<close> over socket \<open>s1\<close> and that socket sends a
  leave for the room \<open>R2\<close>, which does not exist. The index entry of \<open>u1\<close> is removed and a
  \<^verbatim>\<open>userLeft\<close> is emitted.
\<close>

theorem leave_absent_member_counterexample:
  "map_get (rooms (run [Join ''s1'' ''R1'' ''u1'' ''A''] empty_registry)) ''R2'' = None
   \<and> userSocketMap (run [Join ''s1'' ''R1'' ''u1'' ''A''] empty_registry) = [(''u1'', ''s1'')]
   \<and> userSocketMap (fst (leave_room ''s1'' ''R2'' ''u1'' (run [Join ''s1'' ''R1'' ''u1'' ''A''] empty_registry))) = []
   \<and> emitted (snd (leave_room ''s1'' ''R2'' ''u1'' (run [Join ''s1'' ''R1'' ''u1'' ''A''] empty_registry)))
     = [(RoomExcept ''R2'' ''s1'', UserLeft ''u1'')]"
  by code_simp

subsection \<open>C5: routing a signal\<close>

lemma groups_leave_room:
  "groups (fst (leave_room s roomId userId st)) = (groups st)(roomId := groups st roomId - {s})"
  by (simp add: leave_room_def split: prod.splits)

lemma groups_disconnect: "groups (fst (disconnect s st)) = (\<lambda>r. groups st r - {s})"
  by (simp add: disconnect_def split: prod.splits)

lemma index_connected_join:
  assumes "index_connected st" and "connected st s"
  shows "index_connected (fst (join_room s roomId userId nick st))"
  unfolding index_connected_def
proof (intro allI impI)
  fix u sid
  assume "(u, sid) \<in> set (userSocketMap (fst (join_room s roomId userId nick st)))"
  then have "(u, sid) \<in> insert (userId, s) (set (userSocketMap st))"
    using set_map_set_subset [of userId s "userSocketMap st"] by (auto simp: index_join_room)
  then have "connected st sid" using assms by (auto simp: index_connected_def)
  then show "connected (fst (join_room s roomId userId nick st)) sid"
    by (auto simp: connected_def groups_join_room)
qed

lemma index_connected_leave:
  assumes "index_connected st"
  shows "index_connected (fst (leave_room s roomId userId st))"
  unfolding index_connected_def
proof (intro allI impI)
  fix u sid
  assume mem: "(u, sid) \<in> set (userSocketMap (fst (leave_room s roomId userId st)))"
  then have in_idx: "(u, sid) \<in> set (remove_socket s (userSocketMap st))"
    by (simp add: index_leave_room)
  then have "sid \<noteq> s" using remove_socket_gone [of u s "userSocketMap st"] by auto
  moreover have "connected st sid"
    using in_idx remove_socket_subset [of s "userSocketMap st"] assms by (auto simp: index_connected_def)
  ultimately show "connected (fst (leave_room s roomId userId st)) sid"
    by (auto simp: connected_def groups_leave_room)
qed

lemma index_connected_disconnect:
  assumes "index_connected st"
  shows "index_connected (fst (disconnect s st))"
  unfolding index_connected_def
proof (intro allI impI)
  fix u sid
  assume mem: "(u, sid) \<in> set (userSocketMap (fst (disconnect s st)))"
  then have in_idx: "(u, sid) \<in> set (remove_socket s (userSocketMap st))"
    by (simp add: disconnect_index)
  then have "sid \<noteq> s" using remove_socket_gone [of u s "userSocketMap st"] by auto
  moreover have "connected st sid"
    using in_idx remove_socket_subset [of s "userSocketMap st"] assms by (auto simp: index_connected_def)
  ultimately show "connected (fst (disconnect s st)) sid"
    by (auto simp: connected_def groups_disconnect)
qed

lemma index_connected_connection:
  "index_connected st \<Longrightarrow> index_connected (fst (connection_handler s st))"
  by (auto simp: index_connected_def connected_def)

lemma index_connected_step:
  "index_connected st \<Longrightarrow> join_connected x st \<Longrightarrow> index_connected (step x st)"
  by (cases x)
     (simp_all add: index_connected_join index_connected_leave index_connected_disconnect
        index_connected_connection)

lemma index_connected_run:
  "index_connected st \<Longrightarrow> joins_connected st ops \<Longrightarrow> index_connected (run ops st)"
proof (induction ops arbitrary: st)
  case Nil
  then show ?case by (simp add: run_def)
next
  case (Cons x ops)
  have "run (x # ops) st = run ops (step x st)" by (simp add: run_def)
  then show ?case using Cons.prems Cons.IH [of "step x st"] by (simp add: index_connected_step)
qed

lemma signal_handler_found:
  assumes "map_get (userSocketMap st) to = Some sid" and "sid \<noteq> []"
  shows "signal_handler to from (Some sig) st =
           Inr (st, (if \<not> isValidUser (rooms st) from then [Warn (UnknownOrigin from)] else [])
                @ [Emit (ToRoom sid) (Signal from sig)])"
  using assms by (simp add: signal_handler_def)

text \<open>
  C5. Take a registry reached from the empty one by connections, joins, leaves and
  disconnects in which every join arrives over a connected socket, and a signal request whose
  \<^verbatim>\<open>signal\<close> is there (not \<^verbatim>\<open>null\<close>, not left out). The handler returns and leaves the registry
  as it is. When the index has an entry for \<open>to\<close>, it emits one \<^verbatim>\<open>signal\<close> event, addressed to
  the indexed socket and carrying \<open>from\<close> and the payload as received, and that socket
  receives exactly this one event, whether or not \<open>from\<close> is in a room. When the index has no
  entry for \<open>to\<close>, it emits nothing and no socket receives anything.
\<close>

theorem signal_routing:
  assumes "joins_connected empty_registry ops"
  shows "\<exists>outs. signal_handler to from (Some sig) (run ops empty_registry) = Inr (run ops empty_registry, outs)
           \<and> (case map_get (userSocketMap (run ops empty_registry)) to of
                 None \<Rightarrow> emitted outs = [] \<and> inbox (groups (run ops empty_registry)) outs t = []
               | Some targetSocketId \<Rightarrow>
                   emitted outs = [(ToRoom targetSocketId, Signal from sig)]
                   \<and> inbox (groups (run ops empty_registry)) outs targetSocketId = [Signal from sig])"
proof (cases "map_get (userSocketMap (run ops empty_registry)) to")
  case None
  then show ?thesis by (simp add: signal_handler_def)
next
  case (Some sid)
  have "index_connected (run ops empty_registry)"
    using assms by (intro index_connected_run) (simp_all add: index_connected_def empty_registry_def)
  moreover have "(to, sid) \<in> set (userSocketMap (run ops empty_registry))"
    using Some by (rule map_of_SomeD)
  ultimately have "connected (run ops empty_registry) sid" by (auto simp: index_connected_def)
  then show ?thesis using Some by (simp add: signal_handler_found connected_def)
qed

theorem signal_routing_witness:
  "signal_handler ''u1'' ''nobody'' (Some (Description Offer ''X'')) (run two_connected empty_registry)
     = Inr (run two_connected empty_registry,
            [Warn (UnknownOrigin ''nobody''), Emit (ToRoom ''s1'') (Signal ''nobody'' (Description Offer ''X''))])
   \<and> inbox (groups (run two_connected empty_registry))
        [Warn (UnknownOrigin ''nobody''), Emit (ToRoom ''s1'') (Signal ''nobody'' (Description Offer ''X''))] ''s1''
      = [Signal ''nobody'' (Description Offer ''X'')]"
proof -
  have ok: "joins_connected empty_registry two_connected" 
    by (simp add: two_connected_def connected_def empty_registry_def join_room_def connection_handler_def)
  have idx: "map_get (userSocketMap (run two_connected empty_registry)) ''u1'' = Some ''s1''" by code_simp
  have val: "\<not> isValidUser (rooms (run two_connected empty_registry)) ''nobody''" by code_simp
  show ?thesis
    using signal_routing [OF ok, of "''u1''" "''nobody''" "Description Offer ''X''"] idx val
    by (auto simp: signal_handler_found)
qed

text \<open>
  The claim as stated fails at a request whose \<^verbatim>\<open>signal\<close> is \<^verbatim>\<open>null\<close>: the index has an entry for
  \<open>to\<close>, and the handler throws at its first line, forwarding nothing. It also fails after
  socket \<open>s1\<close> has left the room named by its own id and then joined a room as \<open>u1\<close>: the
  index has the entry, the event is addressed to \<open>s1\<close>, and \<open>s1\<close> does not receive it.
\<close>

theorem signal_routing_counterexample:
  "map_get (userSocketMap (run two_connected empty_registry)) ''u1'' = Some ''s1''
   \<and> signal_handler ''u1'' ''u2'' None (run two_connected empty_registry) = Inl TypeError
   \<and> map_get (userSocketMap (run left_own_room empty_registry)) ''u1'' = Some ''s1''
   \<and> signal_handler ''u1'' ''u2'' (Some (Candidate ''c'')) (run left_own_room empty_registry)
       = Inr (run left_own_room empty_registry,
              [Warn (UnknownOrigin ''u2''), Emit (ToRoom ''s1'') (Signal ''u2'' (Candidate ''c''))])
   \<and> inbox (groups (run left_own_room empty_registry))
        [Warn (UnknownOrigin ''u2''), Emit (ToRoom ''s1'') (Signal ''u2'' (Candidate ''c''))] ''s1'' = []"
proof -
  have idx1: "map_get (userSocketMap (run two_connected empty_registry)) ''u1'' = Some ''s1''"
    by code_simp
  have idx2: "map_get (userSocketMap (run left_own_room empty_registry)) ''u1'' = Some ''s1''"
    by code_simp
  have val: "\<not> isValidUser (rooms (run left_own_room empty_registry)) ''u2''" by code_simp
  have box: "inbox (groups (run left_own_room empty_registry))
        [Warn (UnknownOrigin ''u2''), Emit (ToRoom ''s1'') (Signal ''u2'' (Candidate ''c''))] ''s1'' = []"
    by code_simp
  show ?thesis using idx1 idx2 val box by (simp add: signal_handler_found) (simp add: signal_handler_def)
qed

subsection \<open>C8: relaying a chat message\<close>



section \<open>Properties of the client\<close>

subsection \<open>Draining the queue of candidates\<close>

lemma remoteDescription_unchanged:
  "remoteDescription (conn\<lparr>calls := cs\<rparr>) = remoteDescription conn"
  "remoteDescription (conn\<lparr>iceCandidates := is\<rparr>) = remoteDescription conn"
  by (simp_all add: remoteDescription_def split: option.splits)

lemma add_all_accepted:
  assumes "\<forall>x \<in> set cands. accepts e x"
      and "signalingState conn \<noteq> Closed" and "remoteDescription conn \<noteq> None"
  shows "add_all e cands conn =
           (True, conn\<lparr>iceCandidates := iceCandidates conn @ cands,
                       calls := calls conn @ map (\<lambda>x. (AddIceCandidate x, signalingState conn)) cands\<rparr>)"
  using assms
proof (induction cands arbitrary: conn)
  case Nil
  then show ?case by simp
next
  case (Cons x cands)
  let ?conn1 = "conn\<lparr>calls := calls conn @ [(AddIceCandidate x, signalingState conn)],
                      iceCandidates := iceCandidates conn @ [x]\<rparr>"
  have step: "addIceCandidate e x conn = (True, ?conn1)"
    using Cons.prems by (simp add: addIceCandidate_def log_call_def Let_def)
  have "add_all e cands ?conn1 =
          (True, ?conn1\<lparr>iceCandidates := iceCandidates ?conn1 @ cands,
                        calls := calls ?conn1 @ map (\<lambda>x. (AddIceCandidate x, signalingState ?conn1)) cands\<rparr>)"
    using Cons.prems by (intro Cons.IH) (simp_all add: remoteDescription_unchanged)
  then show ?case using step by simp
qed

lemma put_connection_present:
  "map_get (peerConnections c) userId = Some p \<Longrightarrow>
   put_connection userId conn c =
     c\<lparr>peerConnections := map_set userId (p\<lparr>connection := conn\<rparr>) (peerConnections c)\<rparr>"
  by (simp add: put_connection_def)

lemma map_get_set: "map_get (map_set k v al) k' = (if k' = k then Some v else map_get al k')"
  by (simp add: update_conv')

lemma map_get_delete: "map_get (map_delete k al) k' = (if k' = k then None else map_get al k')"
  by (simp add: delete_conv')

lemma prototype_key_absent: "\<not> prototype_key k \<Longrightarrow> map_get Object_prototype k = None"
  by (simp add: prototype_key_def map_has_def)

lemma drain_accepted:
  assumes peer: "map_get (peerConnections c) userId = Some p"
      and own: "\<not> prototype_key userId"
      and ok: "\<forall>x \<in> set (pending_of c userId). accepts e x"
      and st: "signalingState conn \<noteq> Closed" and rd: "remoteDescription conn \<noteq> None"
  shows "drain_pendingIce e userId conn c =
           (True,
            if pending_of c userId = [] then c
            else c\<lparr>peerConnections :=
                     map_set userId
                       (p\<lparr>connection :=
                            conn\<lparr>iceCandidates := iceCandidates conn @ pending_of c userId,
                                 calls := calls conn @
                                   map (\<lambda>x. (AddIceCandidate x, signalingState conn)) (pending_of c userId)\<rparr>\<rparr>)
                       (peerConnections c),
                   pendingIce := map_delete userId (pendingIce c)\<rparr>)"
proof (cases "map_get (pendingIce c) userId")
  case None
  then show ?thesis using prototype_key_absent [OF own] by (simp add: drain_pendingIce_def pending_of_def)
next
  case (Some cands)
  then have q: "pending_of c userId = cands" by (simp add: pending_of_def)
  show ?thesis
  proof (cases "cands = []")
    case True
    then show ?thesis using Some q by (simp add: drain_pendingIce_def)
  next
    case False
    have "add_all e cands conn =
           (True, conn\<lparr>iceCandidates := iceCandidates conn @ cands,
                       calls := calls conn @ map (\<lambda>x. (AddIceCandidate x, signalingState conn)) cands\<rparr>)"
      using ok st rd unfolding q by (rule add_all_accepted)
    then show ?thesis
      using Some q False peer
      by (simp add: drain_pendingIce_def put_connection_present)
  qed
qed


lemma calls_of_simps:
  "map_get (peerConnections c) userId = Some p \<Longrightarrow> calls_of c userId = calls (connection p)"
  "map_get (peerConnections c) userId = Some p \<Longrightarrow> candidates_of c userId = iceCandidates (connection p)"
  by (simp_all add: calls_of_def candidates_of_def)

lemma pending_of_put_connection [simp]: "pending_of (put_connection userId conn c) u = pending_of c u"
  by (simp add: pending_of_def put_connection_def split: option.splits)

lemma pending_of_sendSignal [simp]: "pending_of (sendSignal to sig c) u = pending_of c u"
  by (simp add: pending_of_def sendSignal_def)

lemma peer_put_connection:
  "map_get (peerConnections c) userId = Some p \<Longrightarrow>
   map_get (peerConnections (put_connection userId conn c)) userId = Some (p\<lparr>connection := conn\<rparr>)"
  by (simp add: put_connection_def map_get_set)

lemma peer_sendSignal [simp]: "peerConnections (sendSignal to sig c) = peerConnections c"
  by (simp add: sendSignal_def)

lemma drained_state:
  assumes peer: "map_get (peerConnections c) userId = Some p"
      and conn: "connection p = conn"
      and own: "\<not> prototype_key userId"
      and ok: "\<forall>x \<in> set (pending_of c userId). accepts e x"
      and st: "signalingState conn \<noteq> Closed" and rd: "remoteDescription conn \<noteq> None"
  obtains c2 p2 where
      "drain_pendingIce e userId conn c = (True, c2)"
      "map_get (peerConnections c2) userId = Some p2"
      "connection p2 = conn\<lparr>iceCandidates := iceCandidates conn @ pending_of c userId,
                             calls := calls conn @
                               map (\<lambda>x. (AddIceCandidate x, signalingState conn)) (pending_of c userId)\<rparr>"
      "pending_of c2 userId = []"
proof (cases "pending_of c userId = []")
  case True
  show ?thesis
  proof (rule that [of c p])
    show "drain_pendingIce e userId conn c = (True, c)"
      using drain_accepted [OF peer own ok st rd] True by simp
    show "map_get (peerConnections c) userId = Some p" by (rule peer)
    show "connection p = conn\<lparr>iceCandidates := iceCandidates conn @ pending_of c userId,
                             calls := calls conn @
                               map (\<lambda>x. (AddIceCandidate x, signalingState conn)) (pending_of c userId)\<rparr>"
      using True conn by simp
    show "pending_of c userId = []" by (rule True)
  qed
next
  case False
  let ?conn2 = "conn\<lparr>iceCandidates := iceCandidates conn @ pending_of c userId,
                     calls := calls conn @
                       map (\<lambda>x. (AddIceCandidate x, signalingState conn)) (pending_of c userId)\<rparr>"
  let ?c2 = "c\<lparr>peerConnections := map_set userId (p\<lparr>connection := ?conn2\<rparr>) (peerConnections c),
               pendingIce := map_delete userId (pendingIce c)\<rparr>"
  show ?thesis
  proof (rule that [of ?c2 "p\<lparr>connection := ?conn2\<rparr>"])
    show "drain_pendingIce e userId conn c = (True, ?c2)"
      using drain_accepted [OF peer own ok st rd] False by simp
    show "map_get (peerConnections ?c2) userId = Some (p\<lparr>connection := ?conn2\<rparr>)"
      by (simp add: map_get_set)
    show "connection (p\<lparr>connection := ?conn2\<rparr>) = ?conn2" by simp
    show "pending_of ?c2 userId = []" by (simp add: pending_of_def map_get_delete)
  qed
qed

lemma apply_offer_drains:
  assumes peer: "map_get (peerConnections c) userId = Some p"
      and st: "signalingState (connection p) \<noteq> Closed"
      and own: "\<not> prototype_key userId"
      and valid: "parses e remote_sdp"
      and ok: "\<forall>x \<in> set (pending_of c userId). accepts e x"
  shows "calls_of (apply_offer e userId remote_sdp c) userId =
           calls (connection p) @ [(SetRemoteDescription Offer, signalingState (connection p))]
           @ map (\<lambda>x. (AddIceCandidate x, HaveRemoteOffer)) (pending_of c userId)
           @ [(CreateAnswer, HaveRemoteOffer), (SetLocalDescription Answer, HaveRemoteOffer)]
       \<and> candidates_of (apply_offer e userId remote_sdp c) userId =
           iceCandidates (connection p) @ pending_of c userId
       \<and> pending_of (apply_offer e userId remote_sdp c) userId = []"
proof -
  let ?conn1 = "(log_call (SetRemoteDescription Offer) (connection p))
                  \<lparr>signalingState := HaveRemoteOffer,
                   pendingLocalDescription := None, pendingRemoteDescription := Some remote_sdp\<rparr>"
  let ?c1 = "put_connection userId ?conn1 c"
  have set1: "setRemoteDescription e Offer remote_sdp (connection p) = (True, ?conn1)"
    using st valid by (simp add: Let_def)
  have peer1: "map_get (peerConnections ?c1) userId = Some (p\<lparr>connection := ?conn1\<rparr>)"
    using peer by (rule peer_put_connection)
  have ok1: "\<forall>x \<in> set (pending_of ?c1 userId). accepts e x" using ok by simp
  have st1: "signalingState ?conn1 \<noteq> Closed" by simp
  have rd1: "remoteDescription ?conn1 \<noteq> None" by (simp add: remoteDescription_def)
  obtain c2 p2 where
        dr: "drain_pendingIce e userId ?conn1 ?c1 = (True, c2)"
    and peer2: "map_get (peerConnections c2) userId = Some p2"
    and conn2: "connection p2 = ?conn1\<lparr>iceCandidates := iceCandidates ?conn1 @ pending_of ?c1 userId,
                             calls := calls ?conn1 @
                               map (\<lambda>x. (AddIceCandidate x, signalingState ?conn1)) (pending_of ?c1 userId)\<rparr>"
    and q2: "pending_of c2 userId = []"
    using drained_state [OF peer1 _ own ok1 st1 rd1] by auto
  let ?conn3 = "log_call CreateAnswer (connection p2)"
  have st2: "signalingState (connection p2) = HaveRemoteOffer" by (simp add: conn2)
  have ans: "createAnswer (connection p2) = (True, ?conn3)"
    by (simp add: createAnswer_def st2)
  have st3: "signalingState ?conn3 = HaveRemoteOffer" by (simp add: log_call_def st2)
  obtain conn4 where set4: "setLocalDescription Answer (sdp e) ?conn3 = (True, conn4)"
     and calls4: "calls conn4 = calls ?conn3 @ [(SetLocalDescription Answer, HaveRemoteOffer)]"
     and ice4: "iceCandidates conn4 = iceCandidates ?conn3"
    using st3 by (simp add: Let_def log_call_def)
  have result: "apply_offer e userId remote_sdp c =
                  sendSignal userId (Description Answer (sdp e)) (put_connection userId conn4 c2)"
    using peer set1 dr peer2 ans set4 by (simp add: apply_offer_def)
  have peer4: "map_get (peerConnections (put_connection userId conn4 c2)) userId
                 = Some (p2\<lparr>connection := conn4\<rparr>)"
    using peer2 by (rule peer_put_connection)
  show ?thesis
    unfolding result
    using peer4 q2 calls4 ice4
    by (simp add: calls_of_def candidates_of_def conn2 log_call_def)
qed

lemma apply_answer_drains:
  assumes peer: "map_get (peerConnections c) userId = Some p"
      and st: "signalingState (connection p) = HaveLocalOffer"
      and own: "\<not> prototype_key userId"
      and valid: "parses e remote_sdp"
      and ok: "\<forall>x \<in> set (pending_of c userId). accepts e x"
  shows "calls_of (apply_answer e userId remote_sdp c) userId =
           calls (connection p) @ [(SetRemoteDescription Answer, HaveLocalOffer)]
           @ map (\<lambda>x. (AddIceCandidate x, Stable)) (pending_of c userId)
       \<and> candidates_of (apply_answer e userId remote_sdp c) userId =
           iceCandidates (connection p) @ pending_of c userId
       \<and> pending_of (apply_answer e userId remote_sdp c) userId = []"
proof -
  let ?conn1 = "(log_call (SetRemoteDescription Answer) (connection p))
                  \<lparr>signalingState := Stable,
                   pendingLocalDescription := None,
                   pendingRemoteDescription := None,
                   currentLocalDescription := pendingLocalDescription (connection p),
                   currentRemoteDescription := Some remote_sdp\<rparr>"
  let ?c1 = "put_connection userId ?conn1 c"
  have set1: "setRemoteDescription e Answer remote_sdp (connection p) = (True, ?conn1)"
    using st valid by (simp add: Let_def)
  have peer1: "map_get (peerConnections ?c1) userId = Some (p\<lparr>connection := ?conn1\<rparr>)"
    using peer by (rule peer_put_connection)
  have ok1: "\<forall>x \<in> set (pending_of ?c1 userId). accepts e x" using ok by simp
  have st1: "signalingState ?conn1 \<noteq> Closed" by simp
  have rd1: "remoteDescription ?conn1 \<noteq> None" by (simp add: remoteDescription_def)
  obtain c2 p2 where
        dr: "drain_pendingIce e userId ?conn1 ?c1 = (True, c2)"
    and peer2: "map_get (peerConnections c2) userId = Some p2"
    and conn2: "connection p2 = ?conn1\<lparr>iceCandidates := iceCandidates ?conn1 @ pending_of ?c1 userId,
                             calls := calls ?conn1 @
                               map (\<lambda>x. (AddIceCandidate x, signalingState ?conn1)) (pending_of ?c1 userId)\<rparr>"
    and q2: "pending_of c2 userId = []"
    using drained_state [OF peer1 _ own ok1 st1 rd1] by auto
  have result: "apply_answer e userId remote_sdp c =
                  c2\<lparr>makingOffer := map_set userId False (makingOffer c2)\<rparr>"
    using peer st set1 dr by (simp add: apply_answer_def)
  have q3: "pending_of (c2\<lparr>makingOffer := map_set userId False (makingOffer c2)\<rparr>) userId = []"
    using q2 by (simp add: pending_of_def)
  show ?thesis
    unfolding result
    using peer2 q3 st
    by (simp add: calls_of_def candidates_of_def conn2 log_call_def)
qed


lemma removePeerConnection_other:
  "map_get (peerConnections c) u = None \<Longrightarrow>
   map_get (peerConnections (removePeerConnection x c)) u = None
   \<and> pending_of (removePeerConnection x c) u = pending_of c u
   \<and> localStream (removePeerConnection x c) = localStream c
   \<and> myUserId (removePeerConnection x c) = myUserId c"
proof (cases "map_get (peerConnections c) x")
  case None
  assume "map_get (peerConnections c) u = None"
  then show ?thesis using None by (simp add: removePeerConnection_def)
next
  case (Some p)
  assume absent: "map_get (peerConnections c) u = None"
  then have "x \<noteq> u" using Some by auto
  then show ?thesis using Some absent
    by (simp add: removePeerConnection_def pending_of_def map_get_delete)
qed

lemma cleanupOldestConnection_other:
  assumes "map_get (peerConnections c) u = None"
  shows "map_get (peerConnections (cleanupOldestConnection c)) u = None
       \<and> pending_of (cleanupOldestConnection c) u = pending_of c u"
  using assms removePeerConnection_other [OF assms]
  by (auto simp: cleanupOldestConnection_def Let_def pending_of_def split: list.splits)

lemma createPeerConnection_new:
  assumes absent: "map_get (peerConnections c) u = None" and stream: "localStream c = Some tracks"
  obtains c1 where "createPeerConnection e u c = Some c1"
    "map_get (peerConnections c1) u = Some \<lparr>connection = new_connection\<lparr>senders := tracks\<rparr>, stream = []\<rparr>"
    "pending_of c1 u = pending_of c u"
proof -
  let ?c0 = "if length (peerConnections c) \<ge> MAX_PEER_CONNECTIONS then cleanupOldestConnection c else c"
  have q0: "pending_of ?c0 u = pending_of c u"
    using cleanupOldestConnection_other [OF absent] by simp
  show ?thesis
    by (rule that [of "the (createPeerConnection e u c)"])
       (use absent stream q0 in \<open>auto simp: createPeerConnection_def Let_def map_get_set pending_of_def\<close>)
qed

lemma on_signal_offer_drains:
  assumes stream: "localStream c = Some tracks"
      and own: "\<not> prototype_key userId"
      and applies: "offer_applies c userId"
      and valid: "parses e remote_sdp"
      and ok: "\<forall>x \<in> set (pending_of c userId). accepts e x"
  shows "calls_of (on_signal e userId (Description Offer remote_sdp) c) userId =
           calls_of c userId @ rollback_call c userId @ [(SetRemoteDescription Offer, Stable)]
           @ map (\<lambda>x. (AddIceCandidate x, HaveRemoteOffer)) (pending_of c userId)
           @ [(CreateAnswer, HaveRemoteOffer), (SetLocalDescription Answer, HaveRemoteOffer)]
       \<and> candidates_of (on_signal e userId (Description Offer remote_sdp) c) userId =
           candidates_of c userId @ pending_of c userId
       \<and> pending_of (on_signal e userId (Description Offer remote_sdp) c) userId = []"
proof (cases "map_get (peerConnections c) userId")
  case None
  obtain c1 where mk: "createPeerConnection e userId c = Some c1"
    and peer1: "map_get (peerConnections c1) userId
                  = Some \<lparr>connection = new_connection\<lparr>senders := tracks\<rparr>, stream = []\<rparr>"
    and q1: "pending_of c1 userId = pending_of c userId"
    using createPeerConnection_new [OF None stream] by blast
  have run: "on_signal e userId (Description Offer remote_sdp) c = apply_offer e userId remote_sdp c1"
    using stream None mk by (simp add: on_signal_def)
  have ok1: "\<forall>x \<in> set (pending_of c1 userId). accepts e x" using ok q1 by simp
  show ?thesis
    unfolding run
    using apply_offer_drains [OF peer1 _ own valid ok1] None q1
    by (simp add: new_connection_def calls_of_def candidates_of_def rollback_call_def)
next
  case (Some p)
  have alive: "signalingState (connection p) \<noteq> Closed"
    using applies Some by (simp add: offer_applies_def)
  show ?thesis
  proof (cases "signalingState (connection p) = Stable")
    case True
    have "string_less (myUserId c) userId \<or> \<not> making c userId"
      using applies Some by (auto simp: offer_applies_def)
    then have run: "on_signal e userId (Description Offer remote_sdp) c = apply_offer e userId remote_sdp c"
      using stream Some True by (auto simp: on_signal_def)
    show ?thesis
      unfolding run
      using apply_offer_drains [OF Some alive own valid ok] Some True
      by (simp add: calls_of_def candidates_of_def rollback_call_def)
  next
    case False
    have polite: "string_less (myUserId c) userId"
      using applies Some False by (auto simp: offer_applies_def)
    let ?conn1 = "(log_call (SetLocalDescription Rollback) (connection p))
                    \<lparr>signalingState := Stable,
                     pendingLocalDescription := None, pendingRemoteDescription := None\<rparr>"
    let ?c1 = "put_connection userId ?conn1 c"
    have rb: "setLocalDescription Rollback [] (connection p) = (True, ?conn1)"
      using False alive by (cases "signalingState (connection p)") (simp_all add: Let_def)
    have run: "on_signal e userId (Description Offer remote_sdp) c = apply_offer e userId remote_sdp ?c1"
      using stream Some False polite rb by (simp add: on_signal_def)
    have peer1: "map_get (peerConnections ?c1) userId = Some (p\<lparr>connection := ?conn1\<rparr>)"
      using Some by (rule peer_put_connection)
    have ok1: "\<forall>x \<in> set (pending_of ?c1 userId). accepts e x" using ok by simp
    show ?thesis
      unfolding run
      using apply_offer_drains [OF peer1 _ own valid ok1] Some False
      by (simp add: calls_of_def candidates_of_def rollback_call_def log_call_def)
  qed
qed

lemma on_signal_answer_drains:
  assumes stream: "localStream c = Some tracks"
      and own: "\<not> prototype_key userId"
      and st: "state_of c userId = Some HaveLocalOffer"
      and valid: "parses e remote_sdp"
      and ok: "\<forall>x \<in> set (pending_of c userId). accepts e x"
  shows "calls_of (on_signal e userId (Description Answer remote_sdp) c) userId =
           calls_of c userId @ [(SetRemoteDescription Answer, HaveLocalOffer)]
           @ map (\<lambda>x. (AddIceCandidate x, Stable)) (pending_of c userId)
       \<and> candidates_of (on_signal e userId (Description Answer remote_sdp) c) userId =
           candidates_of c userId @ pending_of c userId
       \<and> pending_of (on_signal e userId (Description Answer remote_sdp) c) userId = []"
proof -
  obtain p where peer: "map_get (peerConnections c) userId = Some p"
    and hlo: "signalingState (connection p) = HaveLocalOffer"
    using st by (auto simp: state_of_def)
  have run: "on_signal e userId (Description Answer remote_sdp) c = apply_answer e userId remote_sdp c"
    using stream by (simp add: on_signal_def)
  show ?thesis
    unfolding run
    using apply_answer_drains [OF peer hlo own valid ok] peer
    by (simp add: calls_of_def candidates_of_def)
qed

lemma on_signal_candidate_queued:
  assumes stream: "localStream c = Some tracks" and own: "\<not> prototype_key userId"
      and nr: "\<not> ice_ready c userId"
  shows "on_signal e userId (Candidate cand) c =
           c\<lparr>pendingIce := map_set userId (pending_of c userId @ [cand]) (pendingIce c)\<rparr>"
  using assms
  by (simp add: on_signal_def queue_candidate_def ice_ready_def pending_of_def split: option.splits)

lemma on_signal_no_stream:
  "localStream c = None \<Longrightarrow>
   on_signal e userId sig c = c\<lparr>pendingConnections := set_add userId (pendingConnections c)\<rparr>"
  by (simp add: on_signal_def)

lemma on_signal_candidate_added:
  assumes stream: "localStream c = Some tracks" and rdy: "ice_ready c userId"
  shows "pendingIce (on_signal e userId (Candidate cand) c) = pendingIce c
       \<and> (\<exists>st. state_of c userId = Some st
             \<and> calls_of (on_signal e userId (Candidate cand) c) userId
                 = calls_of c userId @ [(AddIceCandidate cand, st)])"
proof -
  obtain p d where peer: "map_get (peerConnections c) userId = Some p"
    and rd: "remoteDescription (connection p) = Some d"
    using rdy by (auto simp: ice_ready_def split: option.splits)
  have run: "on_signal e userId (Candidate cand) c =
               put_connection userId (snd (addIceCandidate e cand (connection p))) c"
    using stream peer rd by (simp add: on_signal_def)
  have calls: "calls (snd (addIceCandidate e cand (connection p))) =
                 calls (connection p) @ [(AddIceCandidate cand, signalingState (connection p))]"
    by (simp add: addIceCandidate_def log_call_def Let_def)
  show ?thesis
    unfolding run
    using peer calls peer_put_connection [OF peer]
    by (simp add: calls_of_def state_of_def put_connection_def)
qed

subsection \<open>C7: candidates are queued, then drained\<close>

text \<open>
  C7 (as amended). While the service has no local stream, the handler returns before it looks
  at the signal: it puts the peer on the pending list and changes nothing else, so a
  candidate is neither queued nor added. While the service has a local stream, for every
  peer \<open>userId\<close>: a candidate that arrives when there is no connection for the peer, or none
  with a remote description, is appended to the peer's queue and nothing else changes,
  provided \<open>userId\<close> is not the name of a member of \<^verbatim>\<open>Object.prototype\<close>; a candidate that arrives
  otherwise is passed to \<^verbatim>\<open>addIceCandidate\<close> at once and the queues stay as they are. When an
  inbound offer is applied, or an inbound answer meets the state \<open>have-local-offer\<close>, the
  browser can parse the description and accepts every queued candidate, and \<open>userId\<close> is not
  such a name, then right after \<^verbatim>\<open>setRemoteDescription\<close> each queued candidate is passed to
  \<^verbatim>\<open>addIceCandidate\<close> once, in arrival order, the connection holds them after the ones it had,
  and the queue is empty.
\<close>

theorem ice_candidates_queued_then_drained:
  "(localStream c = None \<longrightarrow>
      on_signal e userId sig c = c\<lparr>pendingConnections := set_add userId (pendingConnections c)\<rparr>)
   \<and> (localStream c \<noteq> None \<and> \<not> prototype_key userId \<and> \<not> ice_ready c userId \<longrightarrow>
        on_signal e userId (Candidate cand) c =
          c\<lparr>pendingIce := map_set userId (pending_of c userId @ [cand]) (pendingIce c)\<rparr>)
   \<and> (localStream c \<noteq> None \<and> ice_ready c userId \<longrightarrow>
        pendingIce (on_signal e userId (Candidate cand) c) = pendingIce c
        \<and> (\<exists>st. state_of c userId = Some st
              \<and> calls_of (on_signal e userId (Candidate cand) c) userId
                  = calls_of c userId @ [(AddIceCandidate cand, st)]))
   \<and> (localStream c \<noteq> None \<and> \<not> prototype_key userId \<and> offer_applies c userId
       \<and> parses e remote_sdp \<and> (\<forall>x \<in> set (pending_of c userId). accepts e x) \<longrightarrow>
        calls_of (on_signal e userId (Description Offer remote_sdp) c) userId =
          calls_of c userId @ rollback_call c userId @ [(SetRemoteDescription Offer, Stable)]
          @ map (\<lambda>x. (AddIceCandidate x, HaveRemoteOffer)) (pending_of c userId)
          @ [(CreateAnswer, HaveRemoteOffer), (SetLocalDescription Answer, HaveRemoteOffer)]
        \<and> candidates_of (on_signal e userId (Description Offer remote_sdp) c) userId =
            candidates_of c userId @ pending_of c userId
        \<and> pending_of (on_signal e userId (Description Offer remote_sdp) c) userId = [])
   \<and> (localStream c \<noteq> None \<and> \<not> prototype_key userId \<and> state_of c userId = Some HaveLocalOffer
       \<and> parses e remote_sdp \<and> (\<forall>x \<in> set (pending_of c userId). accepts e x) \<longrightarrow>
        calls_of (on_signal e userId (Description Answer remote_sdp) c) userId =
          calls_of c userId @ [(SetRemoteDescription Answer, HaveLocalOffer)]
          @ map (\<lambda>x. (AddIceCandidate x, Stable)) (pending_of c userId)
        \<and> candidates_of (on_signal e userId (Description Answer remote_sdp) c) userId =
            candidates_of c userId @ pending_of c userId
        \<and> pending_of (on_signal e userId (Description Answer remote_sdp) c) userId = [])"
proof (cases "localStream c")
  case None
  then show ?thesis using on_signal_no_stream [OF None] by simp
next
  case (Some tracks)
  show ?thesis
    using on_signal_candidate_queued [OF Some] on_signal_candidate_added [OF Some]
      on_signal_offer_drains [OF Some] on_signal_answer_drains [OF Some] Some
    by simp
qed

theorem ice_candidates_queued_then_drained_witness:
  "on_signal example_env ''u1'' (Candidate ''c1'') (new_service ''u2'')
     = (new_service ''u2'')\<lparr>pendingConnections := [''u1'']\<rparr>
   \<and> on_signal example_env ''u1'' (Candidate ''c1'') (initial_client ''u2'' [example_camera])
     = (initial_client ''u2'' [example_camera])\<lparr>pendingIce := [(''u1'', [''c1''])]\<rparr>
   \<and> pending_of example_queued ''u1'' = [''c1'', ''c2'']
   \<and> calls_of (on_signal example_env ''u1'' (Description Offer ''remote'') example_queued) ''u1''
     = [(SetRemoteDescription Offer, Stable),
        (AddIceCandidate ''c1'', HaveRemoteOffer), (AddIceCandidate ''c2'', HaveRemoteOffer),
        (CreateAnswer, HaveRemoteOffer), (SetLocalDescription Answer, HaveRemoteOffer)]
   \<and> candidates_of (on_signal example_env ''u1'' (Description Offer ''remote'') example_queued) ''u1''
     = [''c1'', ''c2'']
   \<and> pending_of (on_signal example_env ''u1'' (Description Offer ''remote'') example_queued) ''u1'' = []
   \<and> calls_of (on_signal example_env ''u1'' (Candidate ''c3'')
        (on_signal example_env ''u1'' (Description Offer ''remote'') example_queued)) ''u1''
     = calls_of (on_signal example_env ''u1'' (Description Offer ''remote'') example_queued) ''u1''
       @ [(AddIceCandidate ''c3'', Stable)]
   \<and> pending_of example_offering ''u2'' = [''c1'']
   \<and> candidates_of (on_signal example_env ''u2'' (Description Answer ''remote'') example_offering) ''u2''
     = [''c1'']
   \<and> pending_of (on_signal example_env ''u2'' (Description Answer ''remote'') example_offering) ''u2'' = []"
proof -
  let ?n = "new_service ''u2''"
  let ?c0 = "initial_client ''u2'' [example_camera]"
  let ?c1 = "on_signal example_env ''u1'' (Description Offer ''remote'') example_queued"
  have sn: "localStream ?n = None" by code_simp
  have pn: "set_add ''u1'' (pendingConnections ?n) = [''u1'']" by code_simp
  have part0: "on_signal example_env ''u1'' (Candidate ''c1'') ?n = ?n\<lparr>pendingConnections := [''u1'']\<rparr>"
    using ice_candidates_queued_then_drained [of ?n example_env "''u1''" "Candidate ''c1''"] sn pn by simp
  have k1: "\<not> prototype_key ''u1''" by code_simp
  have k2: "\<not> prototype_key ''u2''" by code_simp
  have v: "parses example_env ''remote''" by code_simp
  have s0: "localStream ?c0 \<noteq> None" by code_simp
  have n0: "\<not> ice_ready ?c0 ''u1''" by code_simp
  have p0: "map_set ''u1'' (pending_of ?c0 ''u1'' @ [''c1'']) (pendingIce ?c0) = [(''u1'', [''c1''])]"
    by code_simp
  have part1: "on_signal example_env ''u1'' (Candidate ''c1'') ?c0 = ?c0\<lparr>pendingIce := [(''u1'', [''c1''])]\<rparr>"
    using ice_candidates_queued_then_drained [of ?c0 example_env "''u1''" _ "''c1''"] s0 k1 n0 p0 by simp
  have sq: "localStream example_queued \<noteq> None" by code_simp
  have aq: "offer_applies example_queued ''u1''" by code_simp
  have pq: "pending_of example_queued ''u1'' = [''c1'', ''c2'']" by code_simp
  have okq: "\<forall>x \<in> set (pending_of example_queued ''u1''). accepts example_env x"
    unfolding pq by (simp add: example_env_def)
  have cq: "calls_of example_queued ''u1'' = []" "rollback_call example_queued ''u1'' = []"
    "candidates_of example_queued ''u1'' = []" by code_simp+
  have part2: "calls_of ?c1 ''u1''
     = [(SetRemoteDescription Offer, Stable),
        (AddIceCandidate ''c1'', HaveRemoteOffer), (AddIceCandidate ''c2'', HaveRemoteOffer),
        (CreateAnswer, HaveRemoteOffer), (SetLocalDescription Answer, HaveRemoteOffer)]
     \<and> candidates_of ?c1 ''u1'' = [''c1'', ''c2'']
     \<and> pending_of ?c1 ''u1'' = []"
    using ice_candidates_queued_then_drained [of example_queued example_env "''u1''" _ _ "''remote''"]
      sq k1 aq v okq
    by (simp add: pq cq)
  have s1: "localStream ?c1 \<noteq> None" by code_simp
  have r1: "ice_ready ?c1 ''u1''" by code_simp
  have st1: "state_of ?c1 ''u1'' = Some Stable" by code_simp
  have part3: "calls_of (on_signal example_env ''u1'' (Candidate ''c3'') ?c1) ''u1''
     = calls_of ?c1 ''u1'' @ [(AddIceCandidate ''c3'', Stable)]"
    using ice_candidates_queued_then_drained [of ?c1 example_env "''u1''" _ "''c3''"] s1 r1 st1 by simp
  have so: "localStream example_offering \<noteq> None" by code_simp
  have sto: "state_of example_offering ''u2'' = Some HaveLocalOffer" by code_simp
  have po: "pending_of example_offering ''u2'' = [''c1'']" by code_simp
  have oko: "\<forall>x \<in> set (pending_of example_offering ''u2''). accepts example_env x"
    unfolding po by (simp add: example_env_def)
  have co: "candidates_of example_offering ''u2'' = []" by code_simp
  have part4: "candidates_of (on_signal example_env ''u2'' (Description Answer ''remote'') example_offering) ''u2''
       = [''c1'']
     \<and> pending_of (on_signal example_env ''u2'' (Description Answer ''remote'') example_offering) ''u2'' = []"
    using ice_candidates_queued_then_drained [of example_offering example_env "''u2''" _ _ "''remote''"]
      so k2 sto v oko
    by (simp add: po co)
  show ?thesis using part0 part1 pq part2 part3 po part4 by simp
qed

text \<open>
  The claim as stated fails three times. Before the page has a local stream the handler
  returns at line 92: a candidate for a peer without connection is not queued (the peer goes
  on the pending list instead). A candidate from a peer whose id is \<^verbatim>\<open>constructor\<close> is not
  queued either, with a local stream and no connection: line 109 finds the inherited
  \<^verbatim>\<open>Object\<close> under that key and throws. And when the browser rejects the first of two queued
  candidates, the loop is left at that candidate: the second, which the browser would accept,
  is never added and the queue is not emptied, although the remote description is set.
\<close>

theorem ice_candidates_counterexample:
  "pendingIce (on_signal example_env ''u1'' (Candidate ''c1'') (new_service ''u2'')) = []
   \<and> peerConnections (on_signal example_env ''u1'' (Candidate ''c1'') (new_service ''u2'')) = []
   \<and> pendingConnections (on_signal example_env ''u1'' (Candidate ''c1'') (new_service ''u2'')) = [''u1'']
   \<and> pendingIce (on_signal example_env ''constructor'' (Candidate ''c1'')
        (initial_client ''u2'' [example_camera])) = []
   \<and> peerConnections (on_signal example_env ''constructor'' (Candidate ''c1'')
        (initial_client ''u2'' [example_camera])) = []
   \<and> accepts example_env ''c2''
   \<and> ice_ready (on_signal example_env ''u1'' (Description Offer ''remote'')
        (on_signal example_env ''u1'' (Candidate ''c2'')
          (on_signal example_env ''u1'' (Candidate ''bad'') (initial_client ''u2'' [example_camera])))) ''u1''
   \<and> candidates_of (on_signal example_env ''u1'' (Description Offer ''remote'')
        (on_signal example_env ''u1'' (Candidate ''c2'')
          (on_signal example_env ''u1'' (Candidate ''bad'') (initial_client ''u2'' [example_camera])))) ''u1''
     = []
   \<and> pending_of (on_signal example_env ''u1'' (Description Offer ''remote'')
        (on_signal example_env ''u1'' (Candidate ''c2'')
          (on_signal example_env ''u1'' (Candidate ''bad'') (initial_client ''u2'' [example_camera])))) ''u1''
     = [''bad'', ''c2'']"
  by code_simp

subsection \<open>C6: offers and the signalling state\<close>

lemma offer_states_append [simp]: "offer_states (xs @ ys) = offer_states xs @ offer_states ys"
  by (simp add: offer_states_def)

lemma offer_states_simps [simp]:
  "offer_states [] = []"
  "offer_states ((CreateOffer, st) # cs) = offer_states cs"
  "offer_states ((SetLocalDescription Offer, st) # cs) = st # offer_states cs"
  by (simp_all add: offer_states_def)

lemma calls_of_put_connection:
  "map_get (peerConnections c) u = Some p \<Longrightarrow> calls_of (put_connection u conn c) u = calls conn"
  by (simp add: calls_of_def put_connection_def map_get_set)

lemma calls_of_fields [simp]:
  "calls_of (c\<lparr>makingOffer := m\<rparr>) u = calls_of c u"
  "calls_of (sendSignal to sig c) u = calls_of c u"
  by (simp_all add: calls_of_def sendSignal_def)

lemma put_connection_fields [simp]:
  "makingOffer (put_connection u conn c) = makingOffer c"
  by (simp add: put_connection_def split: option.splits)

lemma negotiation_timer_offer_states:
  "set (offer_states (calls_of (negotiation_timer e u c) u))
     \<subseteq> set (offer_states (calls_of c u)) \<union> {Stable}"
proof (cases "map_get (peerConnections c) u")
  case None
  then show ?thesis by (auto simp: negotiation_timer_def)
next
  case (Some p)
  have cs: "calls_of c u = calls (connection p)" using Some by (simp add: calls_of_def)
  have peer1: "map_get (peerConnections (c\<lparr>makingOffer := map_set u True (makingOffer c)\<rparr>)) u = Some p"
    using Some by simp
  show ?thesis
    using Some
    by (auto simp: negotiation_timer_def Let_def cs createOffer_def log_call_def
          calls_of_put_connection [OF peer1] split: if_splits)
qed


lemma createPeerConnection_calls:
  assumes "createPeerConnection e u c = Some c0"
  shows "calls_of c0 u = calls_of c u"
proof (cases "map_get (peerConnections c) u")
  case (Some p)
  then show ?thesis using assms by (simp add: createPeerConnection_def)
next
  case None
  then obtain tracks where stream: "localStream c = Some tracks"
    using assms by (auto simp: createPeerConnection_def split: option.splits)
  obtain c1 where "createPeerConnection e u c = Some c1"
    and "map_get (peerConnections c1) u = Some \<lparr>connection = new_connection\<lparr>senders := tracks\<rparr>, stream = []\<rparr>"
    using createPeerConnection_new [OF None stream] by blast
  then show ?thesis using assms None by (simp add: calls_of_def new_connection_def)
qed

lemma initiateCall_offer_states:
  assumes "initiateCall e u c = Some c'"
  shows "set (offer_states (calls_of c' u)) \<subseteq> set (offer_states (calls_of c u)) \<union> {Stable}"
proof -
  obtain c0 where mk: "createPeerConnection e u c = Some c0"
    using assms by (auto simp: initiateCall_def split: option.splits)
  have cs0: "calls_of c0 u = calls_of c u" using mk by (rule createPeerConnection_calls)
  show ?thesis
  proof (cases "map_get (peerConnections c0) u")
    case None
    then show ?thesis using assms mk cs0 by (auto simp: initiateCall_def)
  next
    case (Some p)
    have cs: "calls_of c0 u = calls (connection p)" using Some by (simp add: calls_of_def)
    have peer1: "map_get (peerConnections (c0\<lparr>makingOffer := map_set u True (makingOffer c0)\<rparr>)) u = Some p"
      using Some by simp
    show ?thesis
      using assms mk Some cs0 cs calls_of_put_connection [OF peer1]
      by (auto simp: initiateCall_def Let_def createOffer_def log_call_def split: if_splits)
  qed
qed

lemma offer_states_log_call:
  "offer_states (calls (log_call k conn)) =
     offer_states (calls conn) @ (if k = SetLocalDescription Offer then [signalingState conn] else [])"
  by (simp add: log_call_def offer_states_def)

lemma offer_states_engine:
  "offer_states (calls (snd (createOffer conn))) = offer_states (calls conn)"
  "offer_states (calls (snd (createAnswer conn))) = offer_states (calls conn)"
  "offer_states (calls (snd (setRemoteDescription e ty d conn))) = offer_states (calls conn)"
  "offer_states (calls (snd (addIceCandidate e x conn))) = offer_states (calls conn)"
  "ty \<noteq> Offer \<Longrightarrow> offer_states (calls (snd (setLocalDescription ty d conn))) = offer_states (calls conn)"
  by (cases ty; simp add: createOffer_def createAnswer_def addIceCandidate_def Let_def log_call_def offer_states_def)+

lemma offer_states_add_all:
  "offer_states (calls (snd (add_all e cands conn))) = offer_states (calls conn)"
proof (induction cands arbitrary: conn)
  case Nil
  show ?case by simp
next
  case (Cons x cands)
  obtain ok conn1 where step: "addIceCandidate e x conn = (ok, conn1)" by (cases "addIceCandidate e x conn")
  have "offer_states (calls conn1) = offer_states (calls conn)"
    using offer_states_engine(4) [of e x conn] step by simp
  then show ?case using step Cons.IH [of conn1] by simp
qed


lemma calls_of_present:
  "map_get (peerConnections c) u = Some p \<Longrightarrow> calls_of c u = calls (connection p)"
  by (simp add: calls_of_def)

lemma drain_offer_states:
  assumes peer: "map_get (peerConnections c) u = Some p" and conn: "connection p = conn"
  shows "offer_states (calls_of (snd (drain_pendingIce e u conn c)) u) = offer_states (calls conn)
       \<and> map_get (peerConnections (snd (drain_pendingIce e u conn c))) u \<noteq> None"
proof -
  have same: "calls_of c u = calls conn" using peer conn by (simp add: calls_of_def)
  show ?thesis
  proof (cases "map_get (pendingIce c) u")
    case None
    then show ?thesis using same peer
      by (simp add: drain_pendingIce_def split: option.splits)
  next
    case (Some cands)
    obtain ok conn1 where all: "add_all e cands conn = (ok, conn1)" by (cases "add_all e cands conn")
    have os1: "offer_states (calls conn1) = offer_states (calls conn)"
      using offer_states_add_all [of e cands conn] all by simp
    have put: "calls_of (put_connection u conn1 c) u = calls conn1"
      using peer by (rule calls_of_put_connection)
    have peer1: "map_get (peerConnections (put_connection u conn1 c)) u \<noteq> None"
      using peer_put_connection [OF peer, of conn1] by simp
    show ?thesis
      using Some all os1 put peer1 same peer
      by (simp add: drain_pendingIce_def Let_def calls_of_def)
  qed
qed

lemma apply_offer_offer_states:
  assumes peer: "map_get (peerConnections c) u = Some p"
  shows "offer_states (calls_of (apply_offer e u d c) u) = offer_states (calls (connection p))"
proof -
  obtain ok1 conn1 where set1: "setRemoteDescription e Offer d (connection p) = (ok1, conn1)"
    by (cases "setRemoteDescription e Offer d (connection p)")
  have os1: "offer_states (calls conn1) = offer_states (calls (connection p))"
    using offer_states_engine(3) [of e Offer d "connection p"] set1 by simp
  let ?c1 = "put_connection u conn1 c"
  have peer1: "map_get (peerConnections ?c1) u = Some (p\<lparr>connection := conn1\<rparr>)"
    using peer by (rule peer_put_connection)
  have calls1: "calls_of ?c1 u = calls conn1" using peer by (rule calls_of_put_connection)
  show ?thesis
  proof (cases ok1)
    case False
    then show ?thesis using peer set1 calls1 os1
      by (simp add: apply_offer_def Let_def del: setRemoteDescription.simps)
  next
    case True
    obtain ok2 c2 where dr: "drain_pendingIce e u conn1 ?c1 = (ok2, c2)"
      by (cases "drain_pendingIce e u conn1 ?c1")
    have os2: "offer_states (calls_of c2 u) = offer_states (calls conn1)"
      and ex2: "map_get (peerConnections c2) u \<noteq> None"
      using drain_offer_states [OF peer1, of conn1 e] dr by simp_all
    then obtain p2 where peer2: "map_get (peerConnections c2) u = Some p2" by auto
    have calls2: "calls_of c2 u = calls (connection p2)" using peer2 by (rule calls_of_present)
    obtain ok3 conn3 where ans: "createAnswer (connection p2) = (ok3, conn3)"
      by (cases "createAnswer (connection p2)")
    have os3: "offer_states (calls conn3) = offer_states (calls (connection p2))"
      using offer_states_engine(2) [of "connection p2"] ans by simp
    obtain ok4 conn4 where set4:
      "(if ok3 then setLocalDescription Answer (sdp e) conn3 else (False, conn3)) = (ok4, conn4)"
      by (cases "if ok3 then setLocalDescription Answer (sdp e) conn3 else (False, conn3)")
    have os4: "offer_states (calls conn4) = offer_states (calls conn3)"
      using offer_states_engine(5) [of Answer "sdp e" conn3] set4 by (cases ok3) auto
    have calls4: "calls_of (put_connection u conn4 c2) u = calls conn4"
      using peer2 by (rule calls_of_put_connection)
    show ?thesis
      using peer set1 True dr peer2 ans set4 os1 os2 os3 os4 calls2 calls4
      by (simp add: apply_offer_def Let_def del: setRemoteDescription.simps)
  qed
qed

lemma apply_answer_offer_states:
  "offer_states (calls_of (apply_answer e u d c) u) = offer_states (calls_of c u)"
proof (cases "map_get (peerConnections c) u")
  case None
  then show ?thesis by (simp add: apply_answer_def)
next
  case (Some p)
  have calls0: "calls_of c u = calls (connection p)" using Some by (rule calls_of_present)
  obtain ok1 conn1 where set1: "setRemoteDescription e Answer d (connection p) = (ok1, conn1)"
    by (cases "setRemoteDescription e Answer d (connection p)")
  have os1: "offer_states (calls conn1) = offer_states (calls (connection p))"
    using offer_states_engine(3) [of e Answer d "connection p"] set1 by simp
  let ?c1 = "put_connection u conn1 c"
  have peer1: "map_get (peerConnections ?c1) u = Some (p\<lparr>connection := conn1\<rparr>)"
    using Some by (rule peer_put_connection)
  have calls1: "calls_of ?c1 u = calls conn1" using Some by (rule calls_of_put_connection)
  obtain ok2 c2 where dr: "drain_pendingIce e u conn1 ?c1 = (ok2, c2)"
    by (cases "drain_pendingIce e u conn1 ?c1")
  have os2: "offer_states (calls_of c2 u) = offer_states (calls conn1)"
    using drain_offer_states [OF peer1, of conn1 e] dr by simp
  show ?thesis
    using Some set1 dr calls0 calls1 os1 os2
    by (simp add: apply_answer_def Let_def del: setRemoteDescription.simps)
qed

lemma impolite_collision_offer_states:
  assumes peer: "map_get (peerConnections c) u = Some p"
  shows "offer_states (calls_of (impolite_collision e u p c) u) =
           offer_states (calls (connection p))
           @ (if \<not> making c u \<and> signalingState (connection p) \<noteq> Closed
              then [signalingState (connection p)] else [])"
proof (cases "making c u")
  case True
  then show ?thesis using peer by (simp add: impolite_collision_def calls_of_def)
next
  case False
  have peer1: "map_get (peerConnections (c\<lparr>makingOffer := map_set u True (makingOffer c)\<rparr>)) u = Some p"
    using peer by simp
  show ?thesis
    using False calls_of_put_connection [OF peer1]
    by (simp add: impolite_collision_def Let_def createOffer_def log_call_def)
qed

lemma reoffers_simps:
  "reoffers c u (Candidate cand) = False"
  "reoffers c u (Description Answer d) = False"
  "reoffers c u (Description Pranswer d) = False"
  "reoffers c u (Description Rollback d) = False"
  "reoffers c u (Description Offer d) =
     (case map_get (peerConnections c) u of
        None \<Rightarrow> False
      | Some p \<Rightarrow>
          localStream c \<noteq> None \<and> \<not> string_less (myUserId c) u \<and> \<not> making c u
          \<and> signalingState (connection p) \<noteq> Stable \<and> signalingState (connection p) \<noteq> Closed)"
  by (simp_all add: reoffers_def)

lemma on_signal_none_offer_states:
  assumes "localStream c = None"
  shows "offer_states (calls_of (on_signal e u sig c) u) = offer_states (calls_of c u)"
    and "\<not> reoffers c u sig"
proof -
  show "offer_states (calls_of (on_signal e u sig c) u) = offer_states (calls_of c u)"
    unfolding on_signal_no_stream [OF assms] by (simp add: calls_of_def)
  show "\<not> reoffers c u sig"
    using assms by (cases sig; simp add: reoffers_def split: sdp_type.splits option.splits)
qed

lemma on_signal_candidate_offer_states:
  assumes stream: "localStream c = Some tracks"
  shows "offer_states (calls_of (on_signal e u (Candidate cand) c) u) = offer_states (calls_of c u)"
proof (cases "map_get (peerConnections c) u")
  case None
  then show ?thesis using stream
    by (simp add: on_signal_def calls_of_def queue_candidate_def split: option.splits)
next
  case (Some p)
  have put: "calls_of (put_connection u (snd (addIceCandidate e cand (connection p))) c) u
          = calls (snd (addIceCandidate e cand (connection p)))"
    using Some by (rule calls_of_put_connection)
  have c0: "calls_of c u = calls (connection p)" using Some by (rule calls_of_present)
  have q: "calls_of (queue_candidate u cand c) u = calls_of c u"
    by (simp add: queue_candidate_def calls_of_def split: option.splits)
  have run: "on_signal e u (Candidate cand) c =
     (if remoteDescription (connection p) = None then queue_candidate u cand c
      else put_connection u (snd (addIceCandidate e cand (connection p))) c)"
    using stream Some by (simp add: on_signal_def)
  show ?thesis
    unfolding run using put c0 q offer_states_engine(4) [of e cand "connection p"] by simp
qed

lemma on_signal_answer_offer_states:
  assumes stream: "localStream c = Some tracks" and "ty \<noteq> Offer"
  shows "offer_states (calls_of (on_signal e u (Description ty d) c) u) = offer_states (calls_of c u)"
proof -
  have run: "on_signal e u (Description ty d) c =
               (if ty = Answer then apply_answer e u d c else c)"
    using assms by (cases ty) (simp_all add: on_signal_def)
  show ?thesis unfolding run by (simp add: apply_answer_offer_states)
qed

lemma on_signal_first_offer_states:
  assumes stream: "localStream c = Some tracks" and absent: "map_get (peerConnections c) u = None"
  shows "offer_states (calls_of (on_signal e u (Description Offer d) c) u) = []"
    and "calls_of c u = []"
proof -
  obtain c1 where mk: "createPeerConnection e u c = Some c1"
    and peer1: "map_get (peerConnections c1) u
                  = Some \<lparr>connection = new_connection\<lparr>senders := tracks\<rparr>, stream = []\<rparr>"
    using createPeerConnection_new [OF absent stream] by blast
  have run: "on_signal e u (Description Offer d) c = apply_offer e u d c1"
    using stream absent mk by (simp add: on_signal_def)
  show "offer_states (calls_of (on_signal e u (Description Offer d) c) u) = []"
    unfolding run apply_offer_offer_states [OF peer1] by (simp add: new_connection_def)
  show "calls_of c u = []" using absent by (simp add: calls_of_def)
qed

lemma on_signal_collision_offer_states:
  assumes stream: "localStream c = Some tracks" and peer: "map_get (peerConnections c) u = Some p"
      and impolite: "\<not> string_less (myUserId c) u"
      and collision: "making c u \<or> signalingState (connection p) \<noteq> Stable"
  shows "offer_states (calls_of (on_signal e u (Description Offer d) c) u) =
           offer_states (calls (connection p))
           @ (if \<not> making c u \<and> signalingState (connection p) \<noteq> Closed
              then [signalingState (connection p)] else [])"
proof -
  have run: "on_signal e u (Description Offer d) c = impolite_collision e u p c"
    using stream peer impolite collision by (simp add: on_signal_def)
  show ?thesis unfolding run by (rule impolite_collision_offer_states [OF peer])
qed

lemma on_signal_rollback_offer_states:
  assumes stream: "localStream c = Some tracks" and peer: "map_get (peerConnections c) u = Some p"
      and polite: "string_less (myUserId c) u"
      and unstable: "signalingState (connection p) \<noteq> Stable"
  shows "offer_states (calls_of (on_signal e u (Description Offer d) c) u) =
           offer_states (calls (connection p))"
proof -
  obtain ok conn1 where rb: "setLocalDescription Rollback [] (connection p) = (ok, conn1)"
    by (cases "setLocalDescription Rollback [] (connection p)")
  have os1: "offer_states (calls conn1) = offer_states (calls (connection p))"
    using offer_states_engine(5) [of Rollback "[]" "connection p"] rb by simp
  let ?c1 = "put_connection u conn1 c"
  have peer1: "map_get (peerConnections ?c1) u = Some (p\<lparr>connection := conn1\<rparr>)"
    using peer by (rule peer_put_connection)
  have calls1: "calls_of ?c1 u = calls conn1" using peer by (rule calls_of_put_connection)
  have run: "on_signal e u (Description Offer d) c = (if ok then apply_offer e u d ?c1 else ?c1)"
    using stream peer polite unstable rb
    by (simp add: on_signal_def del: setLocalDescription.simps)
  show ?thesis
    unfolding run using apply_offer_offer_states [OF peer1, of e d] calls1 os1 by simp
qed

lemma on_signal_plain_offer_states:
  assumes stream: "localStream c = Some tracks" and peer: "map_get (peerConnections c) u = Some p"
      and stable: "signalingState (connection p) = Stable"
      and free: "\<not> making c u \<or> string_less (myUserId c) u"
  shows "offer_states (calls_of (on_signal e u (Description Offer d) c) u) =
           offer_states (calls (connection p))"
proof -
  have run: "on_signal e u (Description Offer d) c = apply_offer e u d c"
    using stream peer stable free by (auto simp: on_signal_def)
  show ?thesis unfolding run by (rule apply_offer_offer_states [OF peer])
qed

lemma calls_of_put_other: "v \<noteq> u \<Longrightarrow> calls_of (put_connection u conn c) v = calls_of c v"
  by (simp add: calls_of_def put_connection_def map_get_set split: option.splits)

lemma calls_of_pendingIce [simp]: "calls_of (c\<lparr>pendingIce := q\<rparr>) v = calls_of c v"
  by (simp add: calls_of_def)

lemma calls_of_drain_other:
  "v \<noteq> u \<Longrightarrow> calls_of (snd (drain_pendingIce e u conn c)) v = calls_of c v"
  by (simp add: drain_pendingIce_def Let_def calls_of_put_other split: option.splits prod.splits)

lemma calls_of_apply_offer_other:
  assumes "v \<noteq> u"
  shows "calls_of (apply_offer e u d c) v = calls_of c v"
proof (cases "map_get (peerConnections c) u")
  case None
  then show ?thesis by (simp add: apply_offer_def)
next
  case (Some p)
  obtain ok1 conn1 where set1: "setRemoteDescription e Offer d (connection p) = (ok1, conn1)"
    by (cases "setRemoteDescription e Offer d (connection p)")
  let ?c1 = "put_connection u conn1 c"
  obtain ok2 c2 where dr: "drain_pendingIce e u conn1 ?c1 = (ok2, c2)"
    by (cases "drain_pendingIce e u conn1 ?c1")
  have c2: "calls_of c2 v = calls_of c v"
    using calls_of_drain_other [OF assms, of e conn1 ?c1] dr calls_of_put_other [OF assms] by simp
  show ?thesis
    using Some set1 dr c2 calls_of_put_other [OF assms]
    by (simp add: apply_offer_def Let_def del: setRemoteDescription.simps split: option.splits prod.splits)
qed

lemma calls_of_apply_answer_other:
  assumes "v \<noteq> u"
  shows "calls_of (apply_answer e u d c) v = calls_of c v"
proof (cases "map_get (peerConnections c) u")
  case None
  then show ?thesis by (simp add: apply_answer_def)
next
  case (Some p)
  obtain ok1 conn1 where set1: "setRemoteDescription e Answer d (connection p) = (ok1, conn1)"
    by (cases "setRemoteDescription e Answer d (connection p)")
  let ?c1 = "put_connection u conn1 c"
  obtain ok2 c2 where dr: "drain_pendingIce e u conn1 ?c1 = (ok2, c2)"
    by (cases "drain_pendingIce e u conn1 ?c1")
  have c2: "calls_of c2 v = calls_of c v"
    using calls_of_drain_other [OF assms, of e conn1 ?c1] dr calls_of_put_other [OF assms] by simp
  show ?thesis
    using Some set1 dr c2 calls_of_put_other [OF assms]
    by (simp add: apply_answer_def Let_def del: setRemoteDescription.simps)
qed

lemma calls_of_impolite_collision_other:
  "v \<noteq> u \<Longrightarrow> calls_of (impolite_collision e u p c) v = calls_of c v"
  by (simp add: impolite_collision_def Let_def calls_of_put_other split: prod.splits)

lemma calls_of_removePeerConnection:
  "calls_of (removePeerConnection x c) v = calls_of c v \<or> calls_of (removePeerConnection x c) v = []"
  by (cases "x = v") (simp_all add: removePeerConnection_def calls_of_def map_get_delete split: option.splits)

lemma calls_of_cleanupOldestConnection:
  "calls_of (cleanupOldestConnection c) v = calls_of c v \<or> calls_of (cleanupOldestConnection c) v = []"
proof -
  have pc: "calls_of (c'\<lparr>pendingConnections := q\<rparr>) v = calls_of c' v" for c' q
    by (simp add: calls_of_def)
  show ?thesis
    using calls_of_removePeerConnection
    by (simp add: cleanupOldestConnection_def Let_def pc split: list.splits prod.splits)
qed

lemma calls_of_createPeerConnection_other:
  assumes "v \<noteq> u" and "createPeerConnection e u c = Some c1"
  shows "calls_of c1 v = calls_of c v \<or> calls_of c1 v = []"
proof (cases "map_get (peerConnections c) u")
  case (Some p)
  then show ?thesis using assms by (simp add: createPeerConnection_def)
next
  case None
  then obtain tracks where stream: "localStream c = Some tracks"
    using assms by (auto simp: createPeerConnection_def split: option.splits)
  let ?c0 = "if length (peerConnections c) \<ge> MAX_PEER_CONNECTIONS then cleanupOldestConnection c else c"
  have c0: "calls_of ?c0 v = calls_of c v \<or> calls_of ?c0 v = []"
    using calls_of_cleanupOldestConnection [of c v] by simp
  have "calls_of c1 v = calls_of ?c0 v"
    using assms None stream
    by (auto simp: createPeerConnection_def Let_def calls_of_def map_get_set)
  then show ?thesis using c0 by simp
qed

lemma calls_of_queue_candidate [simp]: "calls_of (queue_candidate u cand c) v = calls_of c v"
  by (simp add: queue_candidate_def calls_of_def split: option.splits)

lemma calls_of_on_signal_other:
  assumes "v \<noteq> u"
  shows "calls_of (on_signal e u sig c) v = calls_of c v \<or> calls_of (on_signal e u sig c) v = []"
proof (cases "localStream c")
  case None
  then show ?thesis by (simp add: on_signal_no_stream calls_of_def)
next
  case (Some tracks)
  show ?thesis
  proof (cases sig)
    case (Candidate cand)
    then show ?thesis using Some assms
      by (simp add: on_signal_def calls_of_put_other split: option.splits)
  next
    case (Description ty d)
    show ?thesis
    proof (cases ty)
      case Offer
      show ?thesis
      proof (cases "map_get (peerConnections c) u")
        case None
        show ?thesis
        proof (cases "createPeerConnection e u c")
          case None
          then show ?thesis using Some Description Offer \<open>map_get (peerConnections c) u = None\<close>
            by (simp add: on_signal_def)
        next
          case (Some c1)
          have run: "on_signal e u sig c = apply_offer e u d c1"
            using \<open>localStream c = Some tracks\<close> Description Offer \<open>map_get (peerConnections c) u = None\<close> Some
            by (simp add: on_signal_def)
          show ?thesis
            unfolding run calls_of_apply_offer_other [OF assms]
            by (rule calls_of_createPeerConnection_other [OF assms Some])
        qed
      next
        case (Some p)
        obtain ok conn1 where rb: "setLocalDescription Rollback [] (connection p) = (ok, conn1)"
          by (cases "setLocalDescription Rollback [] (connection p)")
        show ?thesis
          using \<open>localStream c = Some tracks\<close> Description Offer Some rb assms
          by (simp add: on_signal_def Let_def calls_of_impolite_collision_other calls_of_apply_offer_other
                calls_of_put_other del: setLocalDescription.simps)
      qed
    next
      case Answer
      then show ?thesis using Some Description assms
        by (simp add: on_signal_def calls_of_apply_answer_other)
    next
      case Pranswer
      then show ?thesis using Some Description by (simp add: on_signal_def)
    next
      case Rollback
      then show ?thesis using Some Description by (simp add: on_signal_def)
    qed
  qed
qed

lemma calls_of_negotiation_timer_other:
  assumes "v \<noteq> u"
  shows "calls_of (negotiation_timer e u c) v = calls_of c v"
proof (cases "map_get (peerConnections c) u")
  case None
  then show ?thesis by (simp add: negotiation_timer_def)
next
  case (Some p)
  obtain ok1 conn1 where mk: "createOffer (connection p) = (ok1, conn1)" by (cases "createOffer (connection p)")
  obtain ok2 conn2 where set2: "setLocalDescription Offer (sdp e) conn1 = (ok2, conn2)"
    by (cases "setLocalDescription Offer (sdp e) conn1")
  show ?thesis
    using Some mk set2 assms
    by (simp add: negotiation_timer_def Let_def calls_of_put_other del: setLocalDescription.simps)
qed

lemma calls_of_initiateCall_other:
  assumes "v \<noteq> u" and "initiateCall e u c = Some c'"
  shows "calls_of c' v = calls_of c v \<or> calls_of c' v = []"
proof -
  obtain c0 where mk0: "createPeerConnection e u c = Some c0"
    using assms by (auto simp: initiateCall_def split: option.splits)
  have c0: "calls_of c0 v = calls_of c v \<or> calls_of c0 v = []"
    by (rule calls_of_createPeerConnection_other [OF assms(1) mk0])
  have "calls_of c' v = calls_of c0 v"
  proof (cases "map_get (peerConnections c0) u")
    case None
    then show ?thesis using assms mk0 by (simp add: initiateCall_def)
  next
    case (Some p)
    obtain ok1 conn1 where mk: "createOffer (connection p) = (ok1, conn1)" by (cases "createOffer (connection p)")
    obtain ok2 conn2 where set2: "setLocalDescription Offer (sdp e) conn1 = (ok2, conn2)"
      by (cases "setLocalDescription Offer (sdp e) conn1")
    show ?thesis
      using assms mk0 Some mk set2
      by (auto simp: initiateCall_def Let_def calls_of_put_other simp del: setLocalDescription.simps
            split: if_splits)
  qed
  then show ?thesis using c0 by simp
qed

text \<open>
  C6 (as amended). For every peer \<open>userId\<close>: the negotiation timer and \<^verbatim>\<open>initiateCall\<close> call
  \<^verbatim>\<open>setLocalDescription\<close> with an offer only while the connection is \<open>stable\<close>. The \<^verbatim>\<open>signal\<close>
  handler calls it with an offer in one case only, the impolite side's collision branch
  entered with \<^verbatim>\<open>makingOffer\<close> down on an open connection (\<open>reoffers\<close>): there it makes exactly
  one such call, in the state it finds, which is not \<open>stable\<close>. In every other case
  (candidates, answers, offers that are applied, rolled back first or ignored, no local
  stream) the handler makes no such call. None of the three makes a call on the connection
  to another peer \<open>v\<close>: its list of calls stays as it is, or is empty because the connection
  was the oldest of a full table and has been removed.
\<close>

theorem offers_set_in_stable_or_on_collision:
  "set (offer_states (calls_of (negotiation_timer e userId c) userId))
     \<subseteq> set (offer_states (calls_of c userId)) \<union> {Stable}
   \<and> (case initiateCall e userId c of
         None \<Rightarrow> True
       | Some c' \<Rightarrow>
           set (offer_states (calls_of c' userId)) \<subseteq> set (offer_states (calls_of c userId)) \<union> {Stable})
   \<and> (\<not> reoffers c userId sig \<longrightarrow>
         offer_states (calls_of (on_signal e userId sig c) userId) = offer_states (calls_of c userId))
   \<and> (reoffers c userId sig \<longrightarrow>
         (\<exists>st. state_of c userId = Some st \<and> st \<noteq> Stable
            \<and> offer_states (calls_of (on_signal e userId sig c) userId)
                = offer_states (calls_of c userId) @ [st]))
   \<and> (v \<noteq> userId \<longrightarrow>
         calls_of (negotiation_timer e userId c) v = calls_of c v
         \<and> (case initiateCall e userId c of
               None \<Rightarrow> True
             | Some c' \<Rightarrow> calls_of c' v = calls_of c v \<or> calls_of c' v = [])
         \<and> (calls_of (on_signal e userId sig c) v = calls_of c v
              \<or> calls_of (on_signal e userId sig c) v = []))"
proof (intro conjI)
  show "v \<noteq> userId \<longrightarrow>
         calls_of (negotiation_timer e userId c) v = calls_of c v
         \<and> (case initiateCall e userId c of
               None \<Rightarrow> True
             | Some c' \<Rightarrow> calls_of c' v = calls_of c v \<or> calls_of c' v = [])
         \<and> (calls_of (on_signal e userId sig c) v = calls_of c v
              \<or> calls_of (on_signal e userId sig c) v = [])"
    using calls_of_negotiation_timer_other [of v userId e c]
      calls_of_initiateCall_other [of v userId e c]
      calls_of_on_signal_other [of v userId e sig c]
    by (cases "initiateCall e userId c") simp_all
  show "set (offer_states (calls_of (negotiation_timer e userId c) userId))
          \<subseteq> set (offer_states (calls_of c userId)) \<union> {Stable}"
    by (rule negotiation_timer_offer_states)
  show "case initiateCall e userId c of
          None \<Rightarrow> True
        | Some c' \<Rightarrow>
            set (offer_states (calls_of c' userId)) \<subseteq> set (offer_states (calls_of c userId)) \<union> {Stable}"
    using initiateCall_offer_states [of e userId c] by (cases "initiateCall e userId c") simp_all
  show "\<not> reoffers c userId sig \<longrightarrow>
          offer_states (calls_of (on_signal e userId sig c) userId) = offer_states (calls_of c userId)"
  proof
    assume no: "\<not> reoffers c userId sig"
    show "offer_states (calls_of (on_signal e userId sig c) userId) = offer_states (calls_of c userId)"
    proof (cases "localStream c")
      case None
      then show ?thesis by (rule on_signal_none_offer_states)
    next
      case (Some tracks)
      show ?thesis
      proof (cases sig)
        case (Candidate cand)
        then show ?thesis using on_signal_candidate_offer_states [OF Some] by simp
      next
        case (Description ty d)
        show ?thesis
        proof (cases "ty = Offer")
          case False
          then show ?thesis using Description on_signal_answer_offer_states [OF Some False] by simp
        next
          case True
          show ?thesis
          proof (cases "map_get (peerConnections c) userId")
            case None
            then show ?thesis using Description True on_signal_first_offer_states [OF Some None] by simp
          next
            case (Some p)
            have c0: "calls_of c userId = calls (connection p)" using Some by (rule calls_of_present)
            have neg: "string_less (myUserId c) userId \<or> making c userId
                       \<or> signalingState (connection p) = Stable \<or> signalingState (connection p) = Closed"
              using no Description True Some \<open>localStream c = Some tracks\<close> by (simp add: reoffers_simps)
            consider (collision) "\<not> string_less (myUserId c) userId"
                  "making c userId \<or> signalingState (connection p) \<noteq> Stable"
              | (rollback) "string_less (myUserId c) userId" "signalingState (connection p) \<noteq> Stable"
              | (plain) "signalingState (connection p) = Stable"
                  "\<not> making c userId \<or> string_less (myUserId c) userId"
              by blast
            then show ?thesis
            proof cases
              case collision
              then show ?thesis
                using on_signal_collision_offer_states [OF \<open>localStream c = Some tracks\<close> Some collision]
                  neg Description True c0
                by auto
            next
              case rollback
              then show ?thesis
                using on_signal_rollback_offer_states [OF \<open>localStream c = Some tracks\<close> Some rollback]
                  Description True c0
                by simp
            next
              case plain
              then show ?thesis
                using on_signal_plain_offer_states [OF \<open>localStream c = Some tracks\<close> Some plain]
                  Description True c0
                by simp
            qed
          qed
        qed
      qed
    qed
  qed
  show "reoffers c userId sig \<longrightarrow>
          (\<exists>st. state_of c userId = Some st \<and> st \<noteq> Stable
             \<and> offer_states (calls_of (on_signal e userId sig c) userId)
                 = offer_states (calls_of c userId) @ [st])"
  proof
    assume yes: "reoffers c userId sig"
    then obtain d where sig: "sig = Description Offer d"
      by (cases sig; simp add: reoffers_def split: sdp_type.splits)
    obtain p tracks where peer: "map_get (peerConnections c) userId = Some p"
      and stream: "localStream c = Some tracks"
      and impolite: "\<not> string_less (myUserId c) userId"
      and idle: "\<not> making c userId"
      and unstable: "signalingState (connection p) \<noteq> Stable"
      and opened: "signalingState (connection p) \<noteq> Closed"
      using yes unfolding sig by (auto simp: reoffers_simps split: option.splits)
    have c0: "calls_of c userId = calls (connection p)" using peer by (rule calls_of_present)
    have st0: "state_of c userId = Some (signalingState (connection p))"
      using peer by (simp add: state_of_def)
    have "offer_states (calls_of (on_signal e userId sig c) userId)
            = offer_states (calls_of c userId) @ [signalingState (connection p)]"
      unfolding sig
      using on_signal_collision_offer_states [OF stream peer impolite, of e d] idle unstable opened c0
      by simp
    then show "\<exists>st. state_of c userId = Some st \<and> st \<noteq> Stable
             \<and> offer_states (calls_of (on_signal e userId sig c) userId)
                 = offer_states (calls_of c userId) @ [st]"
      using st0 unstable by simp
  qed
qed

theorem offers_set_in_stable_or_on_collision_witness:
  "offer_states (calls_of example_glare ''u1'') = [Stable]
   \<and> reoffers example_glare ''u1'' (Description Offer ''remote'')
   \<and> state_of example_glare ''u1'' = Some HaveLocalOffer
   \<and> offer_states (calls_of (on_signal example_env ''u1'' (Description Offer ''remote'') example_glare) ''u1'')
       = [Stable, HaveLocalOffer]
   \<and> \<not> reoffers example_glare ''u1'' (Description Answer ''remote'')
   \<and> offer_states (calls_of (on_signal example_env ''u1'' (Description Answer ''remote'') example_glare) ''u1'')
       = [Stable]
   \<and> calls_of (on_signal example_env ''u1'' (Description Offer ''remote'') example_glare) ''u3'' = []"
proof -
  have other: "calls_of example_glare ''u3'' = []" by code_simp
  have os: "offer_states (calls_of example_glare ''u1'') = [Stable]" by code_simp
  have re: "reoffers example_glare ''u1'' (Description Offer ''remote'')" by code_simp
  have st: "state_of example_glare ''u1'' = Some HaveLocalOffer" by code_simp
  have no: "\<not> reoffers example_glare ''u1'' (Description Answer ''remote'')" by code_simp
  show ?thesis
    using os re st no other
      offers_set_in_stable_or_on_collision
        [of example_env "''u1''" example_glare "Description Offer ''remote''" "''u3''"]
      offers_set_in_stable_or_on_collision
        [of example_env "''u1''" example_glare "Description Answer ''remote''" "''u3''"]
    by simp
qed

text \<open>
  The claim as stated fails. The client \<open>u2\<close> is the impolite side towards \<open>u1\<close>. It creates
  the connection, its negotiation timer sets an offer in \<open>stable\<close>, and then the offer of
  \<open>u1\<close> arrives: the collision branch of lines 130 to 146 calls \<^verbatim>\<open>setLocalDescription\<close> with a
  new offer while the connection is in \<open>have-local-offer\<close>.
\<close>

theorem impolite_collision_offer_unstable:
  "map_option
     (\<lambda>c. offer_states (calls_of
             (on_signal example_env ''u1'' (Description Offer ''remote'')
                (negotiation_timer example_env ''u1'' c)) ''u1''))
     (initiateCall example_env ''u1'' (initial_client ''u2'' [example_camera]))
   = Some [Stable, HaveLocalOffer]"
  by code_simp

subsection \<open>C9: a second screen share\<close>

text \<open>
  What holds of the screen-share branch: the tracks it removes are video tracks whose label
  passes the label test, so every audio track and every video track with another label stays
  on the remote stream (track ids being distinct).
\<close>

lemma fold_removeTrack:
  "fold removeTrack ts remoteStream = filter (\<lambda>x. track_id x \<notin> track_id ` set ts) remoteStream"
proof (induction ts arbitrary: remoteStream)
  case Nil
  show ?case by simp
next
  case (Cons t ts)
  show ?case unfolding fold_Cons comp_def Cons.IH by (auto simp: removeTrack_def intro: filter_cong)
qed

lemma set_addTrack: "set remoteStream \<subseteq> set (addTrack t remoteStream)"
  by (auto simp: addTrack_def)

lemma screen_share_keeps_other_tracks:
  assumes screen: "isScreen tr" "kind tr = Video"
      and ids: "distinct (map track_id remoteStream)"
      and t: "t \<in> set remoteStream" "kind t = Audio \<or> \<not> label_is_screen (label t)"
  shows "t \<in> set (fst (ontrack tr n remoteStream))"
proof -
  let ?tr = "tr\<lparr>enabled := True\<rparr>"
  let ?old = "filter (\<lambda>x. label_is_screen (label x)) (getVideoTracks remoteStream)"
  have scr: "isScreen ?tr \<and> kind ?tr = Video" using screen by (simp add: isScreen_def)
  have "track_id t \<notin> track_id ` set ?old"
  proof
    assume "track_id t \<in> track_id ` set ?old"
    then obtain x where x: "x \<in> set ?old" and same: "track_id x = track_id t" by auto
    then have "x \<in> set remoteStream" by (simp add: getVideoTracks_def)
    then have "x = t" using ids t(1) same by (auto simp: distinct_map dest: inj_onD)
    then show False using x t(2) by (auto simp: getVideoTracks_def)
  qed
  then have "t \<in> set (fold removeTrack ?old remoteStream)"
    using t(1) by (simp add: fold_removeTrack)
  then have "t \<in> set (route_track ?tr remoteStream)"
    using scr set_addTrack by (auto simp: route_track_def Let_def)
  then show ?thesis by (simp add: ontrack_def Let_def)
qed

text \<open>
  C9. The claim does not hold of the code. Both tracks are classified as screen shares by
  their resolution; neither label contains one of the four words. The incoming one is added
  and the one already on the remote stream stays.
\<close>

theorem screen_share_not_replaced:
  "isScreen example_share_a \<and> kind example_share_a = Video
   \<and> isScreen example_share_b \<and> kind example_share_b = Video
   \<and> fst (ontrack example_share_b 1 [example_microphone, example_camera, example_share_a])
     = [example_microphone, example_camera, example_share_a, example_share_b]"
  by code_simp

subsection \<open>C10: removing a peer that is not in the table\<close>

lemma map_get_delete_same: "map_get (map_delete k al) k = None"
  by (simp add: delete_conv')

text \<open>
  C10. For a user id without an entry in \<^verbatim>\<open>peerConnections\<close>, \<^verbatim>\<open>removePeerConnection\<close> returns
  the service unchanged: the table, the creation times, the offer flags and the queues of
  candidates, those under that user id included. Removing twice is the same as removing once.
\<close>

theorem removePeerConnection_absent:
  "(map_get (peerConnections c) userId = None \<longrightarrow> removePeerConnection userId c = c)
   \<and> removePeerConnection userId (removePeerConnection userId c) = removePeerConnection userId c"
proof (cases "map_get (peerConnections c) userId")
  case None
  then show ?thesis by (simp add: removePeerConnection_def)
next
  case (Some p)
  let ?c1 = "removePeerConnection userId c"
  have "map_get (peerConnections ?c1) userId = None"
    using Some by (simp add: removePeerConnection_def map_get_delete_same)
  then have "removePeerConnection userId ?c1 = ?c1"
    by (simp add: removePeerConnection_def [of userId ?c1])
  then show ?thesis using Some by simp
qed

theorem removePeerConnection_absent_witness:
  "map_get (peerConnections (on_signal example_env ''u1'' (Candidate ''c1'') (initial_client ''u2'' [example_camera]))) ''u1'' = None
   \<and> pendingIce (removePeerConnection ''u1''
        (on_signal example_env ''u1'' (Candidate ''c1'') (initial_client ''u2'' [example_camera])))
     = [(''u1'', [''c1''])]"
proof -
  let ?c = "on_signal example_env ''u1'' (Candidate ''c1'') (initial_client ''u2'' [example_camera])"
  have absent: "map_get (peerConnections ?c) ''u1'' = None" by code_simp
  have q: "pendingIce ?c = [(''u1'', [''c1''])]" by code_simp
  show ?thesis
    using absent q removePeerConnection_absent [of ?c "''u1''"] by simp
qed

end
